theory Spec2Isabelle
  imports Complex_Main
begin

unbundle bit_operations_syntax

section \<open>Events, results and the walker interface\<close>

text \<open>
  The walker of \<open>lib/salve/patterns/interleave.ts\<close> drives two sub-walkers of type
  \<open>InternalWalker\<close>. An event is the pair of arguments of
  \<open>fireEvent(name, params)\<close>. A fire result is \<open>InternalFireEventResult\<close>, whose
  \<open>errors\<close> field is optional; an \<open>EndResult\<close> is \<open>false\<close> (here \<open>None\<close>) or an
  array of errors (here \<open>Some\<close> of a list; JavaScript takes every array, the empty one
  included, for true).
\<close>

datatype ValidationError = ValidationError string

record InternalFireEventResult =
  matched :: bool
  errors :: "ValidationError list option"

type_synonym EndResult = "ValidationError list option"

type_synonym Event = "string \<times> string list"

text \<open>
  Modelled from the spec: \<open>isAttributeEvent\<close> of \<open>patterns/base.ts\<close>, which is not
  among the sources. Of the event kinds the spec lists, \<open>attributeName\<close> and
  \<open>attributeValue\<close> are the attribute events.
\<close>

definition isAttributeEvent :: "string \<Rightarrow> bool" where
  "isAttributeEvent name = (name = ''attributeName'' \<or> name = ''attributeValue'')"

text \<open>
  The classes behind the two sub-patterns and their walkers are not among the sources, so
  they are a parameter: one record of the operations that \<open>interleave.ts\<close> calls on a
  sub-pattern \<open>'p\<close> (\<open>newWalker\<close>, \<open>hasAttrs\<close>, \<open>hasEmptyPattern\<close>), on a sub-walker
  \<open>'s\<close> (each method takes the walker's state and returns the new one with its result)
  and on the name resolver \<open>'r\<close> (\<open>cloneIfNeeded\<close>), with the clone memo \<open>'m\<close>
  threaded through the clone operations. A sub-walker is held by value: the constructor
  creates the two sub-walkers itself and keeps them in private read-only fields, so each
  belongs to one interleave walker.
\<close>

record ('p, 's, 'r, 'm) base =
  sub_newWalker :: "'p \<Rightarrow> 'r \<Rightarrow> 's"
  sub_hasAttrs :: "'p \<Rightarrow> bool"
  sub_hasEmptyPattern :: "'p \<Rightarrow> bool"
  sub_fireEvent :: "'s \<Rightarrow> string \<Rightarrow> string list \<Rightarrow> 's \<times> InternalFireEventResult"
  sub_end :: "'s \<Rightarrow> 's \<times> EndResult"
  sub_endAttributes :: "'s \<Rightarrow> 's \<times> EndResult"
  sub_possible :: "'s \<Rightarrow> Event set"
  sub_possibleAttributes :: "'s \<Rightarrow> Event set"
  sub_canEnd :: "'s \<Rightarrow> bool"
  sub_canEndAttribute :: "'s \<Rightarrow> bool"
  sub_clone :: "'s \<Rightarrow> 'm \<Rightarrow> 's \<times> 'm"
  cloneIfNeeded :: "'r \<Rightarrow> 'm \<Rightarrow> 'r \<times> 'm"

section \<open>The interleave pattern and its walker\<close>

record 'p Interleave =
  patA :: 'p
  patB :: 'p

definition computeHasEmptyPattern :: "('p, 's, 'r, 'm) base \<Rightarrow> 'p Interleave \<Rightarrow> bool" where
  "computeHasEmptyPattern B el =
     (sub_hasEmptyPattern B (patA el) \<and> sub_hasEmptyPattern B (patB el))"

text \<open>
  Modelled from the spec: \<open>hasAttrs\<close> and \<open>hasEmptyPattern\<close> of the base class
  \<open>TwoSubpatterns\<close> (\<open>patterns/base.ts\<close>, not among the sources). The spec has each
  pattern carry a memoized \<open>hasEmptyPattern\<close>, which is the value
  \<open>_computeHasEmptyPattern\<close> returns, and a \<open>hasAttrs\<close> that says whether the pattern
  may contribute to attribute matching: an interleave may when one of its operands may.
\<close>

definition hasEmptyPattern :: "('p, 's, 'r, 'm) base \<Rightarrow> 'p Interleave \<Rightarrow> bool" where
  "hasEmptyPattern B el = computeHasEmptyPattern B el"

definition Interleave_hasAttrs :: "('p, 's, 'r, 'm) base \<Rightarrow> 'p Interleave \<Rightarrow> bool" where
  "Interleave_hasAttrs B el = (sub_hasAttrs B (patA el) \<or> sub_hasAttrs B (patB el))"

record ('s, 'r) InterleaveWalker =
  ended :: bool
  hasAttrs :: bool
  walkerA :: 's
  walkerB :: 's
  nameResolver :: 'r
  canEndAttribute :: bool
  canEnd :: bool

text \<open>The constructor's first branch: a walker for a pattern.\<close>

definition newWalker ::
  "('p, 's, 'r, 'm) base \<Rightarrow> 'p Interleave \<Rightarrow> 'r \<Rightarrow> ('s, 'r) InterleaveWalker" where
  "newWalker B el resolver =
     (let ha = Interleave_hasAttrs B el;
          wa = sub_newWalker B (patA el) resolver;
          wb = sub_newWalker B (patB el) resolver
      in \<lparr> ended = False, hasAttrs = ha, walkerA = wa, walkerB = wb,
           nameResolver = resolver,
           canEndAttribute = (\<not> ha \<or> (sub_canEndAttribute B wa \<and> sub_canEndAttribute B wb)),
           canEnd = (sub_canEnd B wa \<and> sub_canEnd B wb) \<rparr>)"

text \<open>The constructor's second branch, reached through \<open>_clone(memo)\<close>.\<close>

definition clone ::
  "('p, 's, 'r, 'm) base \<Rightarrow> ('s, 'r) InterleaveWalker \<Rightarrow> 'm \<Rightarrow> ('s, 'r) InterleaveWalker \<times> 'm" where
  "clone B walker memo =
     (let (resolver, memo1) = cloneIfNeeded B (nameResolver walker) memo;
          (wa, memo2) = sub_clone B (walkerA walker) memo1;
          (wb, memo3) = sub_clone B (walkerB walker) memo2
      in (\<lparr> ended = ended walker, hasAttrs = hasAttrs walker, walkerA = wa, walkerB = wb,
            nameResolver = resolver,
            canEndAttribute = canEndAttribute walker, canEnd = canEnd walker \<rparr>, memo3))"

definition possible :: "('p, 's, 'r, 'm) base \<Rightarrow> ('s, 'r) InterleaveWalker \<Rightarrow> Event set" where
  "possible B w =
     (if ended w then {}
      else sub_possible B (walkerA w) \<union> sub_possible B (walkerB w))"

definition possibleAttributes ::
  "('p, 's, 'r, 'm) base \<Rightarrow> ('s, 'r) InterleaveWalker \<Rightarrow> Event set" where
  "possibleAttributes B w =
     (if ended w then {}
      else sub_possibleAttributes B (walkerA w) \<union> sub_possibleAttributes B (walkerB w))"

definition unmatched :: InternalFireEventResult where
  "unmatched = \<lparr> matched = False, errors = None \<rparr>"

text \<open>
  \<open>fireEvent\<close>: the two early returns, then \<open>walkerA\<close>, and \<open>walkerB\<close> only when
  \<open>walkerA\<close> did not match. The flags are recomputed only in the two matched branches.
\<close>

definition fireEvent ::
  "('p, 's, 'r, 'm) base \<Rightarrow> ('s, 'r) InterleaveWalker \<Rightarrow> string \<Rightarrow> string list
     \<Rightarrow> ('s, 'r) InterleaveWalker \<times> InternalFireEventResult" where
  "fireEvent B w name params =
     (let ret = unmatched;
          evIsAttributeEvent = isAttributeEvent name
      in if evIsAttributeEvent \<and> \<not> hasAttrs w then (w, ret)
         else if ended w then (w, ret)
         else
           let (a, retA) = sub_fireEvent B (walkerA w) name params;
               w1 = w\<lparr> walkerA := a \<rparr>
           in if matched retA then
                let w2 = (if evIsAttributeEvent
                          then w1\<lparr> canEndAttribute :=
                                     sub_canEndAttribute B (walkerA w1) \<and>
                                     sub_canEndAttribute B (walkerB w1) \<rparr>
                          else w1)
                in (w2\<lparr> canEnd := sub_canEnd B (walkerA w2) \<and> sub_canEnd B (walkerB w2) \<rparr>,
                    retA)
              else
                let (b, retB) = sub_fireEvent B (walkerB w1) name params;
                    w3 = w1\<lparr> walkerB := b \<rparr>
                in if matched retB then
                     let w4 = (if evIsAttributeEvent
                               then w3\<lparr> canEndAttribute :=
                                          sub_canEndAttribute B (walkerA w3) \<and>
                                          sub_canEndAttribute B (walkerB w3) \<rparr>
                               else w3)
                     in (w4\<lparr> canEnd := sub_canEnd B (walkerA w4) \<and> sub_canEnd B (walkerB w4) \<rparr>,
                         retB)
                   else (w3, ret))"

text \<open>
  \<open>end()\<close> (named \<open>endWalker\<close>, \<open>end\<close> being a keyword) and \<open>endAttributes()\<close>. Both
  sub-walkers are ended before the results are combined.
\<close>

definition endWalker ::
  "('p, 's, 'r, 'm) base \<Rightarrow> ('s, 'r) InterleaveWalker \<Rightarrow> ('s, 'r) InterleaveWalker \<times> EndResult" where
  "endWalker B w =
     (if ended w then (w, None)
      else if canEnd w then (w\<lparr> ended := True \<rparr>, None)
      else
        let (a, retA) = sub_end B (walkerA w);
            (b, retB) = sub_end B (walkerB w);
            w' = w\<lparr> walkerA := a, walkerB := b \<rparr>
        in (w', case retA of
                  Some ea \<Rightarrow> (case retB of None \<Rightarrow> Some ea | Some eb \<Rightarrow> Some (ea @ eb))
                | None \<Rightarrow> retB))"

definition endAttributes ::
  "('p, 's, 'r, 'm) base \<Rightarrow> ('s, 'r) InterleaveWalker \<Rightarrow> ('s, 'r) InterleaveWalker \<times> EndResult" where
  "endAttributes B w =
     (if ended w \<or> canEndAttribute w then (w, None)
      else
        let (a, retA) = sub_endAttributes B (walkerA w);
            (b, retB) = sub_endAttributes B (walkerB w);
            w' = w\<lparr> walkerA := a, walkerB := b \<rparr>
        in (w', case retA of
                  Some ea \<Rightarrow> (case retB of Some eb \<Rightarrow> Some (ea @ eb) | None \<Rightarrow> Some ea)
                | None \<Rightarrow> retB))"

text \<open>Feeding a sequence of events: the walker after the last one, and each result.\<close>

fun fireEvents ::
  "('p, 's, 'r, 'm) base \<Rightarrow> ('s, 'r) InterleaveWalker \<Rightarrow> Event list
     \<Rightarrow> ('s, 'r) InterleaveWalker \<times> InternalFireEventResult list" where
  "fireEvents B w [] = (w, [])"
| "fireEvents B w (ev # evs) =
     (let (w1, r) = fireEvent B w (fst ev) (snd ev);
          (w2, rs) = fireEvents B w1 evs
      in (w2, r # rs))"

section \<open>Properties of a run\<close>

text \<open>
  What the claims say about sub-walkers and runs, as predicates. \<open>sub_fireEvents\<close>
  feeds a sequence of events to a sub-walker, so the sub-walkers of a pattern \<open>p\<close> that
  a sequence of events reaches from a fresh one are
  \<open>sub_fireEvents B (sub_newWalker B p resolver) evs\<close>. For these sub-walkers,
  \<open>sub_canEnd_iff_end\<close> is the equivalence of \<open>canEnd\<close> and \<open>end()\<close> returning
  \<open>false\<close>, and \<open>canEndAttribute_moves_on_attribute_events\<close> says that only an
  attribute event changes their \<open>canEndAttribute\<close>, which is how \<open>fireEvent\<close> treats
  the flag of the interleave walker (it assigns it under \<open>if (evIsAttributeEvent)\<close>).
\<close>

fun sub_fireEvents :: "('p, 's, 'r, 'm) base \<Rightarrow> 's \<Rightarrow> Event list \<Rightarrow> 's" where
  "sub_fireEvents B s [] = s"
| "sub_fireEvents B s (ev # evs) =
     sub_fireEvents B (fst (sub_fireEvent B s (fst ev) (snd ev))) evs"

definition sub_canEnd_iff_end :: "('p, 's, 'r, 'm) base \<Rightarrow> 'p \<Rightarrow> 'r \<Rightarrow> bool" where
  "sub_canEnd_iff_end B p resolver =
     (\<forall>evs. sub_canEnd B (sub_fireEvents B (sub_newWalker B p resolver) evs) \<longleftrightarrow>
            snd (sub_end B (sub_fireEvents B (sub_newWalker B p resolver) evs)) = None)"

definition canEndAttribute_moves_on_attribute_events ::
  "('p, 's, 'r, 'm) base \<Rightarrow> 'p \<Rightarrow> 'r \<Rightarrow> bool" where
  "canEndAttribute_moves_on_attribute_events B p resolver =
     (\<forall>evs name params.
        \<not> isAttributeEvent name \<longrightarrow>
        sub_canEndAttribute B
          (fst (sub_fireEvent B (sub_fireEvents B (sub_newWalker B p resolver) evs) name params)) =
        sub_canEndAttribute B (sub_fireEvents B (sub_newWalker B p resolver) evs))"

definition canEnd_in_sync :: "('p, 's, 'r, 'm) base \<Rightarrow> ('s, 'r) InterleaveWalker \<Rightarrow> bool" where
  "canEnd_in_sync B w = (canEnd w = (sub_canEnd B (walkerA w) \<and> sub_canEnd B (walkerB w)))"

definition canEndAttribute_in_sync :: "('p, 's, 'r, 'm) base \<Rightarrow> ('s, 'r) InterleaveWalker \<Rightarrow> bool" where
  "canEndAttribute_in_sync B w =
     (canEndAttribute w =
        (\<not> hasAttrs w \<or> (sub_canEndAttribute B (walkerA w) \<and> sub_canEndAttribute B (walkerB w))))"

text \<open>
  A walker accepts a sequence of events when every event is matched without errors and
  the final \<open>end()\<close> returns \<open>false\<close>. Two branches never both match when, in no state
  the walker reaches, one event is matched by both sub-walkers (the constraint on
  interleave that the comment in \<open>fireEvent\<close> relies on). A sub-walker rejects quietly
  when an event it does not match leaves it unchanged: the walker contract of the spec,
  where \<open>matched = false\<close> means that the walker did not consume the event.
\<close>

definition never_both_match :: "('p, 's, 'r, 'm) base \<Rightarrow> ('s, 'r) InterleaveWalker \<Rightarrow> bool" where
  "never_both_match B w0 =
     (\<forall>evs name params.
        \<not> (matched (snd (sub_fireEvent B (walkerA (fst (fireEvents B w0 evs))) name params)) \<and>
           matched (snd (sub_fireEvent B (walkerB (fst (fireEvents B w0 evs))) name params))))"

definition rejects_quietly :: "('p, 's, 'r, 'm) base \<Rightarrow> bool" where
  "rejects_quietly B =
     (\<forall>s name params.
        \<not> matched (snd (sub_fireEvent B s name params)) \<longrightarrow>
        fst (sub_fireEvent B s name params) = s)"

definition no_errors :: "InternalFireEventResult \<Rightarrow> bool" where
  "no_errors r = (case errors r of None \<Rightarrow> True | Some es \<Rightarrow> es = [])"

definition accepts :: "('p, 's, 'r, 'm) base \<Rightarrow> 'p Interleave \<Rightarrow> 'r \<Rightarrow> Event list \<Rightarrow> bool" where
  "accepts B el resolver evs =
     (let (w, results) = fireEvents B (newWalker B el resolver) evs
      in list_all (\<lambda>r. matched r \<and> no_errors r) results \<and> snd (endWalker B w) = None)"

text \<open>The walker with its two branches exchanged.\<close>

definition swap :: "('s, 'r) InterleaveWalker \<Rightarrow> ('s, 'r) InterleaveWalker" where
  "swap w = w\<lparr> walkerA := walkerB w, walkerB := walkerA w \<rparr>"

text \<open>
  Cloning: \<open>R\<close> relates sub-walkers that behave alike (their flags and \<open>end\<close> results
  agree, every event gives the same result and leads to sub-walkers that behave alike
  again), and every clone of a sub-walker is related to its original. \<open>alike\<close> lifts
  \<open>R\<close> to interleave walkers.
\<close>

definition behaves_alike :: "('p, 's, 'r, 'm) base \<Rightarrow> ('s \<Rightarrow> 's \<Rightarrow> bool) \<Rightarrow> bool" where
  "behaves_alike B R =
     (\<forall>s t. R s t \<longrightarrow>
        sub_canEnd B s = sub_canEnd B t \<and>
        sub_canEndAttribute B s = sub_canEndAttribute B t \<and>
        snd (sub_end B s) = snd (sub_end B t) \<and>
        snd (sub_endAttributes B s) = snd (sub_endAttributes B t) \<and>
        (\<forall>name params.
           snd (sub_fireEvent B s name params) = snd (sub_fireEvent B t name params) \<and>
           R (fst (sub_fireEvent B s name params)) (fst (sub_fireEvent B t name params))))"

definition clones_behave_alike :: "('p, 's, 'r, 'm) base \<Rightarrow> ('s \<Rightarrow> 's \<Rightarrow> bool) \<Rightarrow> bool" where
  "clones_behave_alike B R = (behaves_alike B R \<and> (\<forall>s memo. R (fst (sub_clone B s memo)) s))"

definition alike :: "('s \<Rightarrow> 's \<Rightarrow> bool) \<Rightarrow> ('s, 'r) InterleaveWalker \<Rightarrow> ('s, 'r) InterleaveWalker \<Rightarrow> bool" where
  "alike R v w =
     (ended v = ended w \<and> hasAttrs v = hasAttrs w \<and> canEnd v = canEnd w \<and>
      canEndAttribute v = canEndAttribute w \<and>
      R (walkerA v) (walkerA w) \<and> R (walkerB v) (walkerB w))"

text \<open>
  The in-flight rule in the claim's words. \<open>fedTo\<close> lists the sub-walkers that one call
  of \<open>fireEvent\<close> calls, in order, and \<open>consumedBy\<close> names the one whose result is
  returned as matched: both repeat the control flow of \<open>fireEvent\<close>. \<open>tagsConsumed\<close>
  counts, over a run, the events of one name that a branch consumed, and a branch is in
  flight after a run when it has consumed more start tags than end tags.
\<close>

datatype branch = BranchA | BranchB

definition fedTo ::
  "('p, 's, 'r, 'm) base \<Rightarrow> ('s, 'r) InterleaveWalker \<Rightarrow> string \<Rightarrow> string list \<Rightarrow> branch list" where
  "fedTo B w name params =
     (if isAttributeEvent name \<and> \<not> hasAttrs w then []
      else if ended w then []
      else if matched (snd (sub_fireEvent B (walkerA w) name params)) then [BranchA]
      else [BranchA, BranchB])"

definition consumedBy ::
  "('p, 's, 'r, 'm) base \<Rightarrow> ('s, 'r) InterleaveWalker \<Rightarrow> string \<Rightarrow> string list \<Rightarrow> branch option" where
  "consumedBy B w name params =
     (if isAttributeEvent name \<and> \<not> hasAttrs w then None
      else if ended w then None
      else if matched (snd (sub_fireEvent B (walkerA w) name params)) then Some BranchA
      else if matched (snd (sub_fireEvent B (walkerB w) name params)) then Some BranchB
      else None)"

fun tagsConsumed ::
  "('p, 's, 'r, 'm) base \<Rightarrow> ('s, 'r) InterleaveWalker \<Rightarrow> Event list \<Rightarrow> string \<Rightarrow> branch \<Rightarrow> nat" where
  "tagsConsumed B w [] tag br = 0"
| "tagsConsumed B w (ev # evs) tag br =
     (if fst ev = tag \<and> consumedBy B w (fst ev) (snd ev) = Some br then 1 else 0) +
     tagsConsumed B (fst (fireEvent B w (fst ev) (snd ev))) evs tag br"

definition inFlight ::
  "('p, 's, 'r, 'm) base \<Rightarrow> ('s, 'r) InterleaveWalker \<Rightarrow> Event list \<Rightarrow> branch \<Rightarrow> bool" where
  "inFlight B w evs br =
     (tagsConsumed B w evs ''endTag'' br < tagsConsumed B w evs ''enterStartTag'' br)"

text \<open>
  Nullability in the spec's words: the language of an interleave is every shuffle of a
  word of one operand with a word of the other, and a language is nullable when it holds
  the empty sequence.
\<close>

definition interleave_language :: "'e list set \<Rightarrow> 'e list set \<Rightarrow> 'e list set" where
  "interleave_language La Lb = (\<Union>xs \<in> La. \<Union>ys \<in> Lb. shuffles xs ys)"

definition nullable :: "'e list set \<Rightarrow> bool" where
  "nullable L = ([] \<in> L)"

section \<open>Stand-ins for the sub-pattern classes\<close>

text \<open>
  Modelled from the spec: the walkers of the other patterns (\<open>element.ts\<close>,
  \<open>group.ts\<close>, \<open>attribute.ts\<close> and the others of \<open>patterns/\<close>) are not among the
  sources. In \<open>seqBase\<close> a pattern is a fixed sequence of events and its walker holds the
  events still expected: it matches the next expected event, an event it does not match
  leaves it unchanged, and it can end when no event is left. An element is the one
  event \<open>enterStartTag\<close> (\<open>elementPattern\<close>): the grammar walker keeps the stack of the
  active element walkers and dispatches each event to the top one, so the walker of the
  content in which an element stands is given the start tag of the element and none of
  the events inside it. An attribute with a fixed value is \<open>attributeName\<close> then
  \<open>attributeValue\<close> (\<open>attributePattern\<close>), and it can end its attributes after both. A
  group is the concatenation of its operands, and the empty sequence is \<open>empty\<close>.
\<close>

definition seq_fireEvent :: "Event list \<Rightarrow> string \<Rightarrow> string list \<Rightarrow> Event list \<times> InternalFireEventResult" where
  "seq_fireEvent s name params =
     (case s of
        [] \<Rightarrow> (s, unmatched)
      | ev # rest \<Rightarrow>
          if ev = (name, params) then (rest, \<lparr> matched = True, errors = None \<rparr>)
          else (s, unmatched))"

definition seqBase :: "(Event list, Event list, unit, unit) base" where
  "seqBase =
     \<lparr> sub_newWalker = (\<lambda>p r. p),
       sub_hasAttrs = (\<lambda>p. list_ex (\<lambda>ev. isAttributeEvent (fst ev)) p),
       sub_hasEmptyPattern = (\<lambda>p. p = []),
       sub_fireEvent = seq_fireEvent,
       sub_end = (\<lambda>s. (s, if s = [] then None else Some [ValidationError ''events missing''])),
       sub_endAttributes = (\<lambda>s. (s, if list_ex (\<lambda>ev. isAttributeEvent (fst ev)) s
                                      then Some [ValidationError ''attributes missing''] else None)),
       sub_possible = (\<lambda>s. case s of [] \<Rightarrow> {} | ev # rest \<Rightarrow> {ev}),
       sub_possibleAttributes =
         (\<lambda>s. case s of [] \<Rightarrow> {} | ev # rest \<Rightarrow> if isAttributeEvent (fst ev) then {ev} else {}),
       sub_canEnd = (\<lambda>s. s = []),
       sub_canEndAttribute = (\<lambda>s. \<not> list_ex (\<lambda>ev. isAttributeEvent (fst ev)) s),
       sub_clone = (\<lambda>s m. (s, m)),
       cloneIfNeeded = (\<lambda>r m. (r, m)) \<rparr>"

definition elementPattern :: "string \<Rightarrow> Event list" where
  "elementPattern local = [(''enterStartTag'', ['''', local])]"

definition attributePattern :: "string \<Rightarrow> string \<Rightarrow> Event list" where
  "attributePattern local v = [(''attributeName'', ['''', local]), (''attributeValue'', [v])]"

text \<open>
  Modelled from the spec: the walker of a \<open>value\<close> pattern (\<open>value.ts\<close>, not among the
  sources). The spec gives every walker the two flags \<open>canEnd\<close> and
  \<open>canEndAttribute\<close>, kept in sync after each transition, and has a value walker
  compare the text with its value. \<open>valueBase\<close> is \<open>seqBase\<close> with a \<open>text\<close> event in
  a pattern standing for a \<open>value\<close> pattern (\<open>valuePattern\<close>, the value not empty):
  its walker matches the text that equals the value, and its two flags are taken to
  move together, both false before the text has matched and both true after. A
  sub-walker that has no attribute and cannot end its attributes is what the
  constructor of the interleave walker provides for with \<open>!this.hasAttrs ||\<close>. The
  value walker keeps to the walker contract: an event it does not match leaves it
  unchanged.
\<close>

definition valuePattern :: "string \<Rightarrow> Event list" where
  "valuePattern v = [(''text'', [v])]"

definition valueBase :: "(Event list, Event list, unit, unit) base" where
  "valueBase =
     seqBase\<lparr> sub_canEndAttribute :=
                (\<lambda>s. \<not> list_ex (\<lambda>ev. isAttributeEvent (fst ev) \<or> fst ev = ''text'') s) \<rparr>"

section \<open>The conversion walker\<close>

text \<open>
  \<open>DefaultConversionWalker\<close> writes the JSON form of a simplified schema. JavaScript
  numbers are the finite reals with the two infinities and \<open>NaN\<close>; \<open>js_less\<close> is
  the less-than operator and \<open>js_strict_equal\<close> the strict equality on numbers (\<open>NaN\<close>
  is neither less than nor equal to anything).
\<close>

datatype js_number = NaN | NegInfinity | Finite real | PosInfinity

fun js_less :: "js_number \<Rightarrow> js_number \<Rightarrow> bool" where
  "js_less NaN y = False"
| "js_less x NaN = False"
| "js_less NegInfinity y = (y \<noteq> NegInfinity)"
| "js_less x NegInfinity = False"
| "js_less PosInfinity y = False"
| "js_less x PosInfinity = True"
| "js_less (Finite a) (Finite b) = (a < b)"

fun js_strict_equal :: "js_number \<Rightarrow> js_number \<Rightarrow> bool" where
  "js_strict_equal NaN y = False"
| "js_strict_equal x NaN = False"
| "js_strict_equal x y = (x = y)"

text \<open>
  An exception is a value: \<open>Fatal\<close> is the class of the command line tool, \<open>Error\<close>
  the built-in one, \<open>TypeError\<close> what JavaScript raises on a property access of
  \<open>undefined\<close>. The two messages that interpolate a number keep the number.
\<close>

datatype message = Message string | CantProduceFormatVersion js_number | UnknownVersion js_number

datatype exn = Fatal message | Error message | TypeError

definition andThen :: "exn + 'a \<Rightarrow> ('a \<Rightarrow> exn + 'b) \<Rightarrow> exn + 'b" where
  "andThen m f = (case m of Inl ex \<Rightarrow> Inl ex | Inr x \<Rightarrow> f x)"

lemma andThen_cong [fundef_cong]:
  "m = m' \<Longrightarrow> (\<And>x. m' = Inr x \<Longrightarrow> f x = f' x) \<Longrightarrow> andThen m f = andThen m' f'"
  by (simp add: andThen_def split: sum.splits)

text \<open>
  Modelled from the spec: the classes \<open>Node\<close>, \<open>Element\<close> and \<open>ConversionWalker\<close> come
  from \<open>../conversion\<close>, which is not among the sources. The walker reads of an element
  its \<open>local\<close> name, its \<open>path\<close>, its attributes through \<open>mustGetAttribute\<close> (which
  raises when the attribute is missing), its \<open>children\<close> and the \<open>text\<close> of a node;
  \<open>walkChildren(el, startAt, endAt)\<close> of the base class walks the children of \<open>el\<close> that
  are elements, from \<open>startAt\<close> up to \<open>endAt\<close>.
\<close>

datatype Node = Element (local: string) (path: string) (attributes: "(string \<times> string) list")
    (children: "Node list")
  | Text string

fun nodeText :: "Node \<Rightarrow> string" where
  "nodeText (Text t) = t"
| "nodeText (Element l p a cs) = concat (map nodeText cs)"

definition mustGetAttribute :: "Node \<Rightarrow> string \<Rightarrow> exn + string" where
  "mustGetAttribute el name =
     (case map_of (attributes el) name of
        None \<Rightarrow> Inl (Error (Message (''no attribute named '' @ name)))
      | Some v \<Rightarrow> Inr v)"

definition isElement :: "Node \<Rightarrow> bool" where
  "isElement n = (case n of Element l p a cs \<Rightarrow> True | Text t \<Rightarrow> False)"

definition localOf :: "Node \<Rightarrow> string option" where
  "localOf n = (case n of Element l p a cs \<Rightarrow> Some l | Text t \<Rightarrow> None)"

text \<open>
  Modelled from the spec: \<open>OPTION_NO_PATHS\<close> and \<open>nameToCode\<close> come from \<open>./common\<close>,
  which is not among the sources. The spec gives the flag as bit 0 of \<open>o\<close>; the table
  from constructor names to codes is a parameter, as is \<open>parseInt\<close> followed by the
  number's \<open>toString()\<close>.
\<close>

definition OPTION_NO_PATHS :: nat where
  "OPTION_NO_PATHS = 1"

record common =
  nameToCode :: "string \<Rightarrow> nat option"
  parseIntToString :: "string \<Rightarrow> string"

text \<open>
  The walker's read-only fields (\<open>includePaths\<close>, \<open>verbose\<close>, \<open>arrayStart\<close>) are
  one record, made by the constructor \<open>new_DefaultConversionWalker\<close>; the fields that the
  methods assign (\<open>inNameClass\<close>, \<open>_output\<close> as \<open>outputStr\<close>, \<open>_constructState\<close>) are
  another, which every method takes and returns. The fields \<open>open\<close> and \<open>close\<close> of a
  \<open>ConstructState\<close> are \<open>openStr\<close> and \<open>closeStr\<close>. An \<open>item\<close> is the argument of
  \<open>outputItem\<close>, a number or a string, and \<open>showNat\<close> is \<open>toString()\<close> of a
  non-negative integer. Strings are strings of bytes, so \<open>toUpperCase\<close> is the one of
  the ASCII letters, which the names of the schema elements are made of.
\<close>

datatype item = Number nat | String string

record ConstructState =
  openStr :: string
  closeStr :: string
  first :: bool

record DefaultConversionWalker =
  includePaths :: bool
  verbose :: bool
  arrayStart :: item

record WalkerState =
  inNameClass :: bool
  outputStr :: string
  constructState :: "ConstructState list"

fun showNat :: "nat \<Rightarrow> string" where
  "showNat n = (if n < 10 then [char_of (48 + n)] else showNat (n div 10) @ [char_of (48 + n mod 10)])"

declare showNat.simps [simp del]

definition new_DefaultConversionWalker ::
  "js_number \<Rightarrow> bool \<Rightarrow> bool \<Rightarrow> exn + DefaultConversionWalker" where
  \<open>new_DefaultConversionWalker version includePaths' verbose' =
     (if \<not> js_strict_equal version (Finite 3)
      then Inl (Error (Message ''DefaultConversionWalker only supports version 3''))
      else Inr \<lparr> includePaths = includePaths', verbose = verbose',
                 arrayStart = (if verbose' then String ''"Array"'' else Number 0) \<rparr>)\<close>

definition initialState :: WalkerState where
  "initialState =
     \<lparr> inNameClass = False, outputStr = [],
       constructState = [\<lparr> openStr = [], closeStr = [], first = True \<rparr>] \<rparr>"

definition reset :: "WalkerState \<Rightarrow> WalkerState" where
  "reset w =
     w\<lparr> outputStr := [], constructState := [\<lparr> openStr = [], closeStr = [], first = True \<rparr>] \<rparr>"

definition openConstruct :: "string \<Rightarrow> string \<Rightarrow> WalkerState \<Rightarrow> WalkerState" where
  "openConstruct opn cls w =
     w\<lparr> constructState := \<lparr> openStr = opn, closeStr = cls, first = True \<rparr> # constructState w,
        outputStr := outputStr w @ opn \<rparr>"

definition closeConstruct :: "string \<Rightarrow> WalkerState \<Rightarrow> exn + WalkerState" where
  "closeConstruct cls w =
     (case constructState w of
        [] \<Rightarrow> Inr w
      | topC # rest \<Rightarrow>
          if cls \<noteq> closeStr topC
          then Inl (Error (Message (''construct mismatch: '' @ closeStr topC @ '' vs '' @ cls)))
          else Inr (w\<lparr> constructState := rest, outputStr := outputStr w @ cls \<rparr>))"

definition newItem :: "WalkerState \<Rightarrow> exn + WalkerState" where
  "newItem w =
     (case constructState w of
        [] \<Rightarrow> Inl TypeError
      | topC # rest \<Rightarrow>
          if first topC then Inr (w\<lparr> constructState := topC\<lparr> first := False \<rparr> # rest \<rparr>)
          else Inr (w\<lparr> outputStr := outputStr w @ '','' \<rparr>))"

definition outputItem :: "item \<Rightarrow> WalkerState \<Rightarrow> exn + WalkerState" where
  "outputItem it w =
     andThen (newItem w)
       (\<lambda>w. Inr (w\<lparr> outputStr := outputStr w @ (case it of Number n \<Rightarrow> showNat n | String s \<Rightarrow> s) \<rparr>))"

fun escape :: "string \<Rightarrow> string" where
  "escape [] = []"
| "escape (c # cs) =
     (if c = CHR 0x22 \<or> c = CHR 0x5C then CHR 0x5C # c # escape cs else c # escape cs)"

definition outputAsString :: "string \<Rightarrow> WalkerState \<Rightarrow> exn + WalkerState" where
  "outputAsString thing w =
     andThen (newItem w)
       (\<lambda>w. Inr (w\<lparr> outputStr := outputStr w @ [CHR 0x22] @ escape thing @ [CHR 0x22] \<rparr>))"

definition openArray :: "DefaultConversionWalker \<Rightarrow> WalkerState \<Rightarrow> exn + WalkerState" where
  "openArray this w = outputItem (arrayStart this) (openConstruct ''['' '']'' w)"

definition toUpperCase :: "char \<Rightarrow> char" where
  "toUpperCase c =
     (if c \<in> set ''abcdefghijklmnopqrstuvwxyz'' then char_of (of_char c - (32::nat)) else c)"

definition capitalize :: "string \<Rightarrow> string" where
  "capitalize s = (case s of [] \<Rightarrow> [] | c # cs \<Rightarrow> toUpperCase c # cs)"

definition isDigits :: "string \<Rightarrow> bool" where
  "isDigits s = (s \<noteq> [] \<and> list_all (\<lambda>c. c \<in> set ''0123456789'') s)"

definition outputName :: "common \<Rightarrow> string \<Rightarrow> WalkerState \<Rightarrow> exn + WalkerState" where
  "outputName C name w =
     (if isDigits name then outputItem (String (parseIntToString C name)) w
      else outputAsString name w)"

definition outputCtor ::
  "DefaultConversionWalker \<Rightarrow> string \<Rightarrow> nat \<Rightarrow> WalkerState \<Rightarrow> exn + WalkerState" where
  "outputCtor this ctorName ctor w =
     (if verbose this then outputAsString ctorName w else outputItem (Number ctor) w)"

definition outputPath :: "DefaultConversionWalker \<Rightarrow> Node \<Rightarrow> WalkerState \<Rightarrow> exn + WalkerState" where
  "outputPath this el w = (if includePaths this then outputAsString (path el) w else Inr w)"

definition cannotFindConstructor :: "string \<Rightarrow> exn" where
  "cannotFindConstructor name =
     Error (Message (''can'' @ [CHR 0x27] @ ''t find constructor for '' @ name))"

definition walkRef :: "common \<Rightarrow> Node \<Rightarrow> WalkerState \<Rightarrow> exn + WalkerState" where
  "walkRef C el w = andThen (mustGetAttribute el ''name'') (\<lambda>name. outputName C name w)"

definition walkValue :: "Node \<Rightarrow> WalkerState \<Rightarrow> exn + WalkerState" where
  "walkValue el w =
     andThen (outputAsString (nodeText el) w) (\<lambda>w.
     andThen (mustGetAttribute el ''type'') (\<lambda>typeAttr.
     andThen (mustGetAttribute el ''datatypeLibrary'') (\<lambda>datatypeLibraryAttr.
     andThen (mustGetAttribute el ''ns'') (\<lambda>nsAttr.
     if typeAttr \<noteq> ''token'' \<or> datatypeLibraryAttr \<noteq> [] \<or> nsAttr \<noteq> [] then
       andThen (outputAsString typeAttr w) (\<lambda>w.
       if datatypeLibraryAttr \<noteq> [] \<or> nsAttr \<noteq> [] then
         andThen (outputAsString datatypeLibraryAttr w) (\<lambda>w.
         if nsAttr \<noteq> [] then outputAsString nsAttr w else Inr w)
       else Inr w)
     else Inr w))))"

definition walkName :: "Node \<Rightarrow> WalkerState \<Rightarrow> exn + WalkerState" where
  "walkName el w =
     andThen (mustGetAttribute el ''ns'') (\<lambda>ns.
     andThen (outputAsString ns w) (\<lambda>w. outputAsString (nodeText el) w))"

text \<open>
  \<open>walk\<close> is the method of that name; its inner \<open>switch\<close>, which writes the arguments
  of a node after the constructor and the path, is \<open>walkArgs\<close>. The recursion goes down
  the tree.
\<close>

lemma size_list_drop_less: "size_list f (drop n xs) < Suc (size_list f xs)"
proof -
  have "size_list f (drop n xs) \<le> size_list f xs"
    by (induction xs arbitrary: n) (auto simp: drop_Cons split: nat.splits intro: le_SucI trans_le_add2)
  then show ?thesis by simp
qed

lemma size_list_take_less: "size_list f (take n xs) < Suc (size_list f xs)"
proof -
  have "size_list f (take n xs) \<le> size_list f xs"
    by (induction xs arbitrary: n) (auto simp: take_Cons split: nat.splits)
  then show ?thesis by simp
qed

lemma size_last_less: "xs \<noteq> [] \<Longrightarrow> f (last xs) < size_list f xs"
  by (induction xs) auto

function walk :: "common \<Rightarrow> DefaultConversionWalker \<Rightarrow> Node \<Rightarrow> WalkerState \<Rightarrow> exn + WalkerState"
  and walkArgs ::
    "common \<Rightarrow> DefaultConversionWalker \<Rightarrow> string \<Rightarrow> string \<Rightarrow> (string \<times> string) list \<Rightarrow> Node list
       \<Rightarrow> WalkerState \<Rightarrow> exn + WalkerState"
  and walkChildren :: "common \<Rightarrow> DefaultConversionWalker \<Rightarrow> Node list \<Rightarrow> WalkerState \<Rightarrow> exn + WalkerState" where
  "walkChildren C this [] w = Inr w"
| "walkChildren C this (child # rest) w =
     (if isElement child then andThen (walk C this child w) (\<lambda>w. walkChildren C this rest w)
      else walkChildren C this rest w)"
| "walk C this (Text t) w = Inl TypeError"
| \<open>walk C this (Element elName pth attrs cs) w =
     (let el = Element elName pth attrs cs in
      if elName = ''start'' then walkChildren C this cs w
      else if elName = ''param'' then
        andThen (mustGetAttribute el ''name'') (\<lambda>name.
        andThen (outputAsString name w) (\<lambda>w.
        case cs of [] \<Rightarrow> Inl TypeError | c # rest \<Rightarrow> outputAsString (nodeText c) w))
      else if elName = ''grammar'' then
        andThen (outputItem (String (''"v":3,"o":'' @
                    showNat (if includePaths this then 0 else OPTION_NO_PATHS) @ '',"d":''))
                  (openConstruct ''{'' ''}'' w)) (\<lambda>w.
        case nameToCode C ''Grammar'' of
          None \<Rightarrow> Inl (cannotFindConstructor ''Grammar'')
        | Some ctor \<Rightarrow>
            andThen (outputCtor this ''Grammar'' ctor (openConstruct ''['' '']'' w)) (\<lambda>w.
            andThen (outputPath this el w) (\<lambda>w.
            andThen (case cs of [] \<Rightarrow> Inl TypeError | c # rest \<Rightarrow> walk C this c w) (\<lambda>w.
            andThen (newItem w) (\<lambda>w.
            andThen (openArray this w) (\<lambda>w.
            andThen (walkChildren C this (drop 1 cs) w) (\<lambda>w.
            andThen (closeConstruct '']'' w) (\<lambda>w.
            andThen (closeConstruct '']'' w) (\<lambda>w.
            closeConstruct ''}'' w)))))))))
      else
        (let capitalized = capitalize elName;
             skipToChildren = (capitalized = ''Except'');
             capitalized = (if inNameClass w \<and> capitalized = ''Choice'' then ''NameChoice''
                            else capitalized)
         in if skipToChildren then walkChildren C this cs w
            else
              andThen (newItem w) (\<lambda>w.
              case nameToCode C capitalized of
                None \<Rightarrow> Inl (cannotFindConstructor capitalized)
              | Some ctor \<Rightarrow>
                  andThen (outputCtor this capitalized ctor (openConstruct ''['' '']'' w)) (\<lambda>w.
                  andThen (outputPath this el w) (\<lambda>w.
                  andThen (walkArgs C this elName pth attrs cs w) (\<lambda>w.
                  closeConstruct '']'' w))))))\<close>
| \<open>walkArgs C this elName pth attrs cs w =
     (let el = Element elName pth attrs cs in
      if elName = ''ref'' then walkRef C el w
      else if elName = ''define'' then
        andThen (mustGetAttribute el ''name'') (\<lambda>name.
        andThen (outputName C name w) (\<lambda>w.
        andThen (newItem w) (\<lambda>w.
        andThen (openArray this w) (\<lambda>w.
        andThen (walkChildren C this cs w) (\<lambda>w.
        closeConstruct '']'' w)))))
      else if elName = ''value'' then walkValue el w
      else if elName = ''data'' then
        (let hasParams = (cs \<noteq> [] \<and> localOf (hd cs) = Some ''param'');
             hasExcept = (cs \<noteq> [] \<and> localOf (last cs) = Some ''except'')
         in andThen (mustGetAttribute el ''type'') (\<lambda>typeAttr.
            andThen (mustGetAttribute el ''datatypeLibrary'') (\<lambda>datatypeLibraryAttr.
            if typeAttr \<noteq> ''token'' \<or> datatypeLibraryAttr \<noteq> [] \<or> hasParams \<or> hasExcept then
              andThen (outputAsString typeAttr w) (\<lambda>w.
              if datatypeLibraryAttr \<noteq> [] \<or> hasParams \<or> hasExcept then
                andThen (outputAsString datatypeLibraryAttr w) (\<lambda>w.
                if hasParams \<or> hasExcept then
                  andThen (newItem w) (\<lambda>w.
                  andThen (openArray this w) (\<lambda>w.
                  andThen (if hasParams
                           then walkChildren C this
                                  (if hasExcept then take (length cs - 1) cs else cs) w
                           else Inr w) (\<lambda>w.
                  andThen (closeConstruct '']'' w) (\<lambda>w.
                  if hasExcept then walk C this (last cs) w else Inr w))))
                else Inr w)
              else Inr w)
            else Inr w)))
      else if elName = ''group'' \<or> elName = ''interleave'' \<or> elName = ''choice'' \<or>
              elName = ''oneOrMore'' then
        andThen (newItem w) (\<lambda>w.
        andThen (openArray this w) (\<lambda>w.
        andThen (walkChildren C this cs w) (\<lambda>w.
        closeConstruct '']'' w)))
      else if elName = ''element'' \<or> elName = ''attribute'' then
        andThen (case cs of [] \<Rightarrow> Inl TypeError
                 | c # rest \<Rightarrow> walk C this c (w\<lparr> inNameClass := True \<rparr>)) (\<lambda>w.
        andThen (newItem (w\<lparr> inNameClass := False \<rparr>)) (\<lambda>w.
        andThen (openArray this w) (\<lambda>w.
        andThen (walkChildren C this (drop 1 cs) w) (\<lambda>w.
        closeConstruct '']'' w))))
      else if elName = ''name'' then walkName el w
      else if elName = ''nsName'' then
        andThen (mustGetAttribute el ''ns'') (\<lambda>ns.
        andThen (outputAsString ns w) (\<lambda>w.
        walkChildren C this cs w))
      else walkChildren C this cs w)\<close>
  by pat_completeness auto
termination
  by (relation "inv_image (less_than <*lex*> less_than) (\<lambda>x. case x of
          Inl (C, this, n, w) \<Rightarrow> (size n, 1)
        | Inr (Inl (C, this, elName, pth, attrs, cs, w)) \<Rightarrow> (Suc (size_list size cs), 0)
        | Inr (Inr (C, this, ns, w)) \<Rightarrow> (size_list size ns, 2::nat))")
     (auto simp: size_list_drop_less size_list_take_less size_last_less less_SucI)

definition writeTreeToJSON ::
  "common \<Rightarrow> Node \<Rightarrow> js_number \<Rightarrow> bool \<Rightarrow> bool \<Rightarrow> exn + string" where
  "writeTreeToJSON C tree formatVersion includePaths' verbose' =
     andThen (new_DefaultConversionWalker formatVersion includePaths' verbose') (\<lambda>walker.
     andThen (walk C walker tree initialState) (\<lambda>w. Inr (outputStr w)))"

text \<open>
  What a method leaves behind, for the proofs: \<open>closers\<close> is the stack of closing
  strings of the open constructs; \<open>ok\<close> says that a step only appended to the output
  and left the stack as it was, \<open>opened\<close> that it pushed one construct, \<open>closed\<close> that
  it popped one.
\<close>

definition closers :: "WalkerState \<Rightarrow> string list" where
  "closers w = map closeStr (constructState w)"

definition ok :: "WalkerState \<Rightarrow> WalkerState \<Rightarrow> bool" where
  "ok w w' = (closers w' = closers w \<and> (\<exists>out. outputStr w' = outputStr w @ out))"

definition opened :: "string \<Rightarrow> WalkerState \<Rightarrow> WalkerState \<Rightarrow> bool" where
  "opened cls w w' = (closers w' = cls # closers w \<and> (\<exists>out. outputStr w' = outputStr w @ out))"

definition closed :: "WalkerState \<Rightarrow> WalkerState \<Rightarrow> bool" where
  "closed w w' = (closers w' = tl (closers w) \<and> (\<exists>out. outputStr w' = outputStr w @ out))"

text \<open>
  \<open>repath f\<close> is the tree with every path \<open>p\<close> replaced by \<open>f p\<close>.
\<close>

fun repath :: "(string \<Rightarrow> string) \<Rightarrow> Node \<Rightarrow> Node" where
  "repath f (Text t) = Text t"
| "repath f (Element l p a cs) = Element l (f p) a (map (repath f) cs)"

text \<open>
  An example to run the walker on: a table with four constructor codes, and the
  simplified schema \<open>element foo { empty }\<close> with its paths.
\<close>

definition exampleCommon :: common where
  "exampleCommon =
     \<lparr> nameToCode = map_of [(''Empty'', 1), (''Element'', 7), (''Name'', 12), (''Grammar'', 20)],
       parseIntToString = (\<lambda>s. s) \<rparr>"

definition exampleTree :: Node where
  "exampleTree =
     Element ''grammar'' ''/grammar'' []
       [Element ''start'' ''/grammar/start'' []
          [Element ''element'' ''/grammar/start/element'' []
             [Element ''name'' ''/grammar/start/element/name'' [(''ns'', [])] [Text ''foo''],
              Element ''empty'' ''/grammar/start/element/empty'' [] []]]]"

section \<open>The command line tool\<close>

text \<open>
  \<open>salve-convert\<close> parses its arguments into \<open>args\<close>; \<open>--format-version\<close> has type
  \<open>Number\<close> and default 3, the other arguments modelled here are \<open>storeTrue\<close> flags
  (\<open>verbose_arg\<close> is \<open>args.verbose\<close>). The process has the flag \<open>terminating\<close>, what
  was written to the standard error (the program name and the message of each line),
  whether the temporary files were cleaned up, and its exit code once it has exited.
\<close>

record Args =
  no_optimize_ids :: bool
  include_paths :: bool
  format_version :: js_number
  simplify_only :: bool
  simplified_input :: bool
  keep_temp :: bool
  verbose_arg :: bool
  timing :: bool
  verbose_format :: bool

record Process =
  terminating :: bool
  stderr :: "(string \<times> message) list"
  tempCleaned :: bool
  exitCode :: "nat option"

definition startProcess :: Process where
  "startProcess = \<lparr> terminating = False, stderr = [], tempCleaned = False, exitCode = None \<rparr>"

text \<open>
  The handler of \<open>uncaughtException\<close>. It returns the exception that it throws again,
  if any, with the process.
\<close>

definition uncaughtException ::
  "string \<Rightarrow> Args option \<Rightarrow> exn \<Rightarrow> Process \<Rightarrow> exn option \<times> Process" where
  "uncaughtException prog args ex p =
     (if terminating p then (None, p)
      else
        (let p = p\<lparr> terminating := True \<rparr> in
         case ex of
           Fatal msg \<Rightarrow> (None, p\<lparr> stderr := stderr p @ [(prog, msg)], exitCode := Some 1 \<rparr>)
         | _ \<Rightarrow>
             (Some ex,
              if (case args of None \<Rightarrow> True | Some a \<Rightarrow> \<not> keep_temp a)
              then p\<lparr> tempCleaned := True \<rparr> else p)))"

text \<open>
  The statements after \<open>parser.parseArgs()\<close>: two flags imply two others, and a format
  version below 3 is fatal.
\<close>

definition impliedFlags :: "Args \<Rightarrow> Args" where
  "impliedFlags args =
     (let args = (if timing args then args\<lparr> verbose_arg := True \<rparr> else args)
      in if verbose_format args then args\<lparr> no_optimize_ids := True \<rparr> else args)"

definition checkFormatVersion :: "Args \<Rightarrow> exn + Args" where
  "checkFormatVersion args =
     (if js_less (format_version args) (Finite 3)
      then Inl (Fatal (CantProduceFormatVersion (format_version args)))
      else Inr args)"

text \<open>
  The \<open>switch\<close> of \<open>convert\<close> that creates the walker.
\<close>

definition newWalkerFor :: "Args \<Rightarrow> exn + DefaultConversionWalker" where
  "newWalkerFor args =
     (if js_strict_equal (format_version args) (Finite 3)
      then new_DefaultConversionWalker (format_version args) (include_paths args) (verbose_format args)
      else Inl (Error (UnknownVersion (format_version args))))"

text \<open>
  The script from the parsed arguments on. An exception that reaches the top level goes
  to the handler. What follows the version check (validation, simplification and
  \<open>convert\<close>, which spawn other programs) is the parameter \<open>continue\<close>.
\<close>

definition salve_convert ::
  "string \<Rightarrow> (Args \<Rightarrow> exn option \<times> Process) \<Rightarrow> Args \<Rightarrow> exn option \<times> Process" where
  "salve_convert prog continue args =
     (case checkFormatVersion (impliedFlags args) of
        Inl ex \<Rightarrow> uncaughtException prog (Some (impliedFlags args)) ex startProcess
      | Inr args \<Rightarrow> continue args)"

definition exampleArgs :: "js_number \<Rightarrow> Args" where
  "exampleArgs N =
     \<lparr> no_optimize_ids = False, include_paths = False, format_version = N,
       simplify_only = False, simplified_input = False, keep_temp = False,
       verbose_arg = False, timing = False, verbose_format = False \<rparr>"

section \<open>The regexp translator\<close>

text \<open>
  Modelled from the spec: the translator is \<open>lib/salve/datatypes/regexp\<close>, of which only
  the tests are among the sources. Following the spec's table: the input is an XSD
  regular expression, the output a string and a matcher; a group becomes a
  non-capturing group, the escapes for a space and for a character that is no space
  become the class of the four space characters and its complement, a multi-character
  escape in a class is expanded in place, the subtraction of a class \<open>B\<close> from a class
  \<open>A\<close> becomes a negative lookahead on \<open>B\<close> followed by the class \<open>A\<close>, and the whole
  expression is anchored. The rows on Unicode categories and on
  the name character sets, and the rewriting of a negative escape inside a class, are
  left out; \<open>parseRegExp\<close> rejects such an expression.

  The syntax tree of the XSD expression:
\<close>

datatype xitem = XChar char | XRange char char | XSpaceItem

datatype xclass = XCls bool "xitem list" "xclass option"

datatype xre = XEmpty | XLit char | XAny | XSpace | XNotSpace | XGroup xre | XClass xclass
  | XSeq xre xre | XAlt xre xre | XOpt xre | XStar xre | XPlus xre

text \<open>
  The syntax tree of the regular expression that is produced: \<open>EBol\<close> and \<open>EEol\<close> are
  the two anchors, \<open>EGroup\<close> the non-capturing group and \<open>ENegLook\<close> the negative
  lookahead.
\<close>

datatype citem = CChar char | CRange char char

datatype ere = EEmpty | ELit char | EAny | EBol | EEol | ESet bool "citem list"
  | EGroup ere | ENegLook ere | ESeq ere ere | EAlt ere ere | EOpt ere | EStar ere | EPlus ere

text \<open>
  The parser. The number in front bounds the depth of the recursion; \<open>parseTree\<close>
  starts it with three times the length of the expression and three more.
\<close>

definition backslash :: char where
  "backslash = CHR 0x5C"

definition metachars :: "char list" where
  "metachars = backslash # ''|.?*+(){}[]^$-''"

fun parseItems :: "string \<Rightarrow> xitem list \<times> string" where
  "parseItems [] = ([], [])"
| "parseItems (c # s) =
     (if c = CHR '']'' then ([], c # s)
      else if c = CHR ''-'' \<and> (case s of d # t \<Rightarrow> d = CHR ''['' | [] \<Rightarrow> False) then ([], c # s)
      else if c = backslash then
        (case s of
           [] \<Rightarrow> ([], c # s)
         | e # t \<Rightarrow>
             if e = CHR ''s'' then (case parseItems t of (items, rest) \<Rightarrow> (XSpaceItem # items, rest))
             else if e \<in> set metachars
             then (case parseItems t of (items, rest) \<Rightarrow> (XChar e # items, rest))
             else ([], c # s))
      else
        (case s of
           d # e # t \<Rightarrow>
             if d = CHR ''-'' \<and> e \<noteq> CHR ''['' \<and> e \<noteq> CHR '']'' \<and> e \<noteq> backslash
             then (case parseItems t of (items, rest) \<Rightarrow> (XRange c e # items, rest))
             else (case parseItems s of (items, rest) \<Rightarrow> (XChar c # items, rest))
         | _ \<Rightarrow> (case parseItems s of (items, rest) \<Rightarrow> (XChar c # items, rest))))"

fun parseClass :: "nat \<Rightarrow> string \<Rightarrow> (xclass \<times> string) option" where
  "parseClass 0 s = None"
| "parseClass (Suc n) s =
     (let neg = (case s of c # t \<Rightarrow> c = CHR ''^'' | [] \<Rightarrow> False);
          (items, rest) = parseItems (if neg then tl s else s)
      in if items = [] then None
         else case rest of
           c # t \<Rightarrow>
             if c = CHR '']'' then Some (XCls neg items None, t)
             else if c = CHR ''-'' then
               (case t of
                  d # u \<Rightarrow>
                    if d = CHR ''['' then
                      (case parseClass n u of
                         Some (sub, e # v) \<Rightarrow>
                           if e = CHR '']'' then Some (XCls neg items (Some sub), v) else None
                       | _ \<Rightarrow> None)
                    else None
                | [] \<Rightarrow> None)
             else None
         | [] \<Rightarrow> None)"

definition quantifier :: "xre \<Rightarrow> string \<Rightarrow> xre \<times> string" where
  "quantifier a s =
     (case s of
        c # t \<Rightarrow>
          if c = CHR ''?'' then (XOpt a, t)
          else if c = CHR ''*'' then (XStar a, t)
          else if c = CHR ''+'' then (XPlus a, t)
          else (a, s)
      | [] \<Rightarrow> (a, s))"

fun parseRegExp :: "nat \<Rightarrow> string \<Rightarrow> (xre \<times> string) option"
  and parseBranch :: "nat \<Rightarrow> string \<Rightarrow> (xre \<times> string) option"
  and parseAtom :: "nat \<Rightarrow> string \<Rightarrow> (xre \<times> string) option" where
  "parseRegExp 0 s = None"
| "parseRegExp (Suc n) s =
     (case parseBranch n s of
        None \<Rightarrow> None
      | Some (b, rest) \<Rightarrow>
          (case rest of
             c # t \<Rightarrow>
               if c = CHR ''|'' then
                 (case parseRegExp n t of None \<Rightarrow> None | Some (r, u) \<Rightarrow> Some (XAlt b r, u))
               else Some (b, rest)
           | [] \<Rightarrow> Some (b, rest)))"
| "parseBranch 0 s = None"
| "parseBranch (Suc n) s =
     (case s of
        [] \<Rightarrow> Some (XEmpty, s)
      | c # t \<Rightarrow>
          if c = CHR ''|'' \<or> c = CHR '')'' then Some (XEmpty, s)
          else
            (case parseAtom n s of
               None \<Rightarrow> None
             | Some (a, rest) \<Rightarrow>
                 (case quantifier a rest of
                    (p, rest') \<Rightarrow>
                      (case parseBranch n rest' of
                         None \<Rightarrow> None
                       | Some (b, u) \<Rightarrow> Some (if b = XEmpty then p else XSeq p b, u)))))"
| "parseAtom 0 s = None"
| "parseAtom (Suc n) s =
     (case s of
        [] \<Rightarrow> None
      | c # t \<Rightarrow>
          if c = CHR ''('' then
            (case parseRegExp n t of
               Some (r, d # u) \<Rightarrow> if d = CHR '')'' then Some (XGroup r, u) else None
             | _ \<Rightarrow> None)
          else if c = CHR ''['' then
            (case parseClass n t of None \<Rightarrow> None | Some (cl, u) \<Rightarrow> Some (XClass cl, u))
          else if c = CHR ''.'' then Some (XAny, t)
          else if c = backslash then
            (case t of
               [] \<Rightarrow> None
             | e # u \<Rightarrow>
                 if e = CHR ''s'' then Some (XSpace, u)
                 else if e = CHR ''S'' then Some (XNotSpace, u)
                 else if e \<in> set metachars then Some (XLit e, u)
                 else None)
          else if c \<in> set metachars then None
          else Some (XLit c, t))"

text \<open>
  The translation, row by row of the table, and the anchors: in the string \<open>^a|b$\<close>
  each anchor belongs to one alternative.
\<close>

definition spaceChars :: "citem list" where
  "spaceChars = [CChar CHR '' '', CChar CHR 0x09, CChar CHR 0x0A, CChar CHR 0x0D]"

fun expandItem :: "xitem \<Rightarrow> citem list" where
  "expandItem (XChar c) = [CChar c]"
| "expandItem (XRange a b) = [CRange a b]"
| "expandItem XSpaceItem = spaceChars"

fun translateClass :: "xclass \<Rightarrow> ere" where
  "translateClass (XCls neg items None) = ESet neg (concat (map expandItem items))"
| "translateClass (XCls neg items (Some sub)) =
     EGroup (ESeq (ENegLook (translateClass sub)) (ESet neg (concat (map expandItem items))))"

fun translate :: "xre \<Rightarrow> ere" where
  "translate XEmpty = EEmpty"
| "translate (XLit c) = ELit c"
| "translate XAny = EAny"
| "translate XSpace = ESet False spaceChars"
| "translate XNotSpace = ESet True spaceChars"
| "translate (XGroup r) = EGroup (translate r)"
| "translate (XClass cl) = translateClass cl"
| "translate (XSeq a b) = ESeq (translate a) (translate b)"
| "translate (XAlt a b) = EAlt (translate a) (translate b)"
| "translate (XOpt a) = EOpt (translate a)"
| "translate (XStar a) = EStar (translate a)"
| "translate (XPlus a) = EPlus (translate a)"

fun anchorStart :: "ere \<Rightarrow> ere" where
  "anchorStart (EAlt a b) = EAlt (anchorStart a) b"
| "anchorStart r = ESeq EBol r"

fun anchorEnd :: "ere \<Rightarrow> ere" where
  "anchorEnd (EAlt a b) = EAlt a (anchorEnd b)"
| "anchorEnd r = ESeq r EEol"

text \<open>
  The string of a produced expression.
\<close>

definition showChar :: "char \<Rightarrow> string" where
  "showChar c =
     (if c = CHR 0x09 then [backslash, CHR ''t'']
      else if c = CHR 0x0A then [backslash, CHR ''n'']
      else if c = CHR 0x0D then [backslash, CHR ''r'']
      else if c \<in> set metachars then [backslash, c]
      else [c])"

fun showItem :: "citem \<Rightarrow> string" where
  "showItem (CChar c) = showChar c"
| "showItem (CRange a b) = showChar a @ ''-'' @ showChar b"

fun showRegExp :: "ere \<Rightarrow> string" where
  "showRegExp EEmpty = []"
| "showRegExp (ELit c) = showChar c"
| "showRegExp EAny = ''.''"
| "showRegExp EBol = ''^''"
| "showRegExp EEol = ''$''"
| "showRegExp (ESet neg items) =
     ''['' @ (if neg then ''^'' else []) @ concat (map showItem items) @ '']''"
| "showRegExp (EGroup r) = ''(?:'' @ showRegExp r @ '')''"
| "showRegExp (ENegLook r) = ''(?!'' @ showRegExp r @ '')''"
| "showRegExp (ESeq a b) = showRegExp a @ showRegExp b"
| "showRegExp (EAlt a b) = showRegExp a @ ''|'' @ showRegExp b"
| "showRegExp (EOpt a) = showRegExp a @ ''?''"
| "showRegExp (EStar a) = showRegExp a @ ''*''"
| "showRegExp (EPlus a) = showRegExp a @ ''+''"

text \<open>
  The matcher. A position is the rest of the subject with whether it is the start of
  the subject; \<open>matchFrom\<close> gives the positions at which a match that starts at a position
  can end, and \<open>regexpTest\<close>, as \<open>RegExp.prototype.test\<close>, looks for a match from any
  start.
\<close>

fun inItem :: "char \<Rightarrow> citem \<Rightarrow> bool" where
  "inItem x (CChar c) = (x = c)"
| "inItem x (CRange a b) = ((of_char a :: nat) \<le> of_char x \<and> (of_char x :: nat) \<le> of_char b)"

type_synonym position = "bool \<times> string"

fun iterate :: "nat \<Rightarrow> (position \<Rightarrow> position list) \<Rightarrow> position \<Rightarrow> position list" where
  "iterate 0 f p = [p]"
| "iterate (Suc n) f p =
     p # concat (map (iterate n f) (filter (\<lambda>q. length (snd q) < length (snd p)) (f p)))"

fun matchFrom :: "ere \<Rightarrow> position \<Rightarrow> position list" where
  "matchFrom EEmpty p = [p]"
| "matchFrom (ELit c) p = (case snd p of x # t \<Rightarrow> if x = c then [(False, t)] else [] | [] \<Rightarrow> [])"
| "matchFrom EAny p =
     (case snd p of x # t \<Rightarrow> if x = CHR 0x0A \<or> x = CHR 0x0D then [] else [(False, t)] | [] \<Rightarrow> [])"
| "matchFrom EBol p = (if fst p then [p] else [])"
| "matchFrom EEol p = (if snd p = [] then [p] else [])"
| "matchFrom (ESet neg items) p =
     (case snd p of x # t \<Rightarrow> if list_ex (inItem x) items \<noteq> neg then [(False, t)] else []
      | [] \<Rightarrow> [])"
| "matchFrom (EGroup r) p = matchFrom r p"
| "matchFrom (ENegLook r) p = (if matchFrom r p = [] then [p] else [])"
| "matchFrom (ESeq a b) p = concat (map (\<lambda>q. matchFrom b q) (matchFrom a p))"
| "matchFrom (EAlt a b) p = matchFrom a p @ matchFrom b p"
| "matchFrom (EOpt a) p = matchFrom a p @ [p]"
| "matchFrom (EStar a) p = iterate (length (snd p)) (\<lambda>q. matchFrom a q) p"
| "matchFrom (EPlus a) p =
     concat (map (\<lambda>r. iterate (length (snd r)) (\<lambda>q. matchFrom a q) r) (matchFrom a p))"

fun startPositions :: "bool \<Rightarrow> string \<Rightarrow> position list" where
  "startPositions b [] = [(b, [])]"
| "startPositions b (c # s) = (b, c # s) # startPositions False s"

definition regexpTest :: "ere \<Rightarrow> string \<Rightarrow> bool" where
  "regexpTest r s = list_ex (\<lambda>p. matchFrom r p \<noteq> []) (startPositions True s)"

definition parseTree :: "string \<Rightarrow> ere option" where
  "parseTree s =
     (case parseRegExp (3 * length s + 3) s of
        Some (r, []) \<Rightarrow> Some (anchorEnd (anchorStart (translate r)))
      | _ \<Rightarrow> None)"

definition parse :: "string \<Rightarrow> string option" where
  "parse s = map_option showRegExp (parseTree s)"

definition parseAndTest :: "string \<Rightarrow> string \<Rightarrow> bool option" where
  "parseAndTest s text' = map_option (\<lambda>r. regexpTest r text') (parseTree s)"

section \<open>Facts about the walker\<close>

lemma fireEvent_ended: "ended w \<Longrightarrow> fireEvent B w name params = (w, unmatched)"
  by (simp add: fireEvent_def Let_def)

lemma fireEvents_ended: "ended w \<Longrightarrow> fireEvents B w evs = (w, replicate (length evs) unmatched)"
  by (induction evs) (simp_all add: fireEvent_ended)

lemma newWalker_in_sync:
  "canEnd_in_sync B (newWalker B el r)" "canEndAttribute_in_sync B (newWalker B el r)"
  by (simp_all add: canEnd_in_sync_def canEndAttribute_in_sync_def newWalker_def Let_def)

lemma fireEvent_canEnd_in_sync:
  assumes "rejects_quietly B" "canEnd_in_sync B w"
  shows "canEnd_in_sync B (fst (fireEvent B w name params))"
proof -
  have q: "\<And>s. \<not> matched (snd (sub_fireEvent B s name params)) \<Longrightarrow>
             fst (sub_fireEvent B s name params) = s"
    using assms(1) by (simp add: rejects_quietly_def)
  show ?thesis
    using assms(2) q[of "walkerA w"] q[of "walkerB w"]
    by (auto simp: fireEvent_def canEnd_in_sync_def Let_def split: prod.splits)
qed


lemma fireEvent_hasAttrs: "hasAttrs (fst (fireEvent B w name params)) = hasAttrs w"
  by (auto simp: fireEvent_def Let_def split: prod.splits)

lemma fireEvent_keeps_ended: "ended (fst (fireEvent B w name params)) = ended w"
  by (auto simp: fireEvent_def Let_def split: prod.splits)

lemma fireEvents_Cons_fst:
  "fst (fireEvents B w (ev # evs)) = fst (fireEvents B (fst (fireEvent B w (fst ev) (snd ev))) evs)"
  by (simp add: case_prod_beta)

lemma fireEvents_keeps_ended: "ended (fst (fireEvents B w evs)) = ended w"
proof (induction evs arbitrary: w)
  case Nil
  show ?case by simp
next
  case (Cons ev evs)
  from Cons[of "fst (fireEvent B w (fst ev) (snd ev))"] show ?case
    by (simp only: fireEvents_Cons_fst fireEvent_keeps_ended)
qed

lemma fireEvents_canEnd_in_sync:
  assumes "rejects_quietly B"
  shows "canEnd_in_sync B w \<Longrightarrow> canEnd_in_sync B (fst (fireEvents B w evs))"
proof (induction evs arbitrary: w)
  case Nil
  then show ?case by simp
next
  case (Cons ev evs)
  from Cons.IH[OF fireEvent_canEnd_in_sync[OF assms Cons.prems, of "fst ev" "snd ev"]]
  show ?case by (simp only: fireEvents_Cons_fst)
qed

lemma sub_fireEvents_snoc:
  "sub_fireEvents B s (evs @ [ev]) =
     fst (sub_fireEvent B (sub_fireEvents B s evs) (fst ev) (snd ev))"
  by (induction evs arbitrary: s) simp_all

lemma fireEvents_snoc_fst:
  "fst (fireEvents B w (evs @ [ev])) =
     fst (fireEvent B (fst (fireEvents B w evs)) (fst ev) (snd ev))"
proof (induction evs arbitrary: w)
  case Nil
  show ?case by (simp add: case_prod_beta)
next
  case (Cons e evs)
  from Cons[of "fst (fireEvent B w (fst e) (snd e))"] show ?case
    by (simp add: case_prod_beta)
qed

lemma fireEvent_walkerA:
  "walkerA (fst (fireEvent B w name params)) = walkerA w \<or>
   walkerA (fst (fireEvent B w name params)) = fst (sub_fireEvent B (walkerA w) name params)"
  by (auto simp: fireEvent_def Let_def split: prod.splits)

lemma fireEvent_walkerB:
  "walkerB (fst (fireEvent B w name params)) = walkerB w \<or>
   walkerB (fst (fireEvent B w name params)) = fst (sub_fireEvent B (walkerB w) name params)"
  by (auto simp: fireEvent_def Let_def split: prod.splits)

lemma sub_walkers_reached:
  "\<exists>ea eb. walkerA (fst (fireEvents B w evs)) = sub_fireEvents B (walkerA w) ea \<and>
           walkerB (fst (fireEvents B w evs)) = sub_fireEvents B (walkerB w) eb"
proof (induction evs rule: rev_induct)
  case Nil
  have "walkerA (fst (fireEvents B w [])) = sub_fireEvents B (walkerA w) [] \<and>
        walkerB (fst (fireEvents B w [])) = sub_fireEvents B (walkerB w) []"
    by simp
  then show ?case by blast
next
  case (snoc ev evs)
  then obtain ea eb where
    r: "walkerA (fst (fireEvents B w evs)) = sub_fireEvents B (walkerA w) ea"
       "walkerB (fst (fireEvents B w evs)) = sub_fireEvents B (walkerB w) eb"
    by blast
  have a: "\<exists>ea'. walkerA (fst (fireEvents B w (evs @ [ev]))) = sub_fireEvents B (walkerA w) ea'"
    using fireEvent_walkerA[of B "fst (fireEvents B w evs)" "fst ev" "snd ev"]
      sub_fireEvents_snoc[of B "walkerA w" ea ev] r(1)
    unfolding fireEvents_snoc_fst by metis
  have b: "\<exists>eb'. walkerB (fst (fireEvents B w (evs @ [ev]))) = sub_fireEvents B (walkerB w) eb'"
    using fireEvent_walkerB[of B "fst (fireEvents B w evs)" "fst ev" "snd ev"]
      sub_fireEvents_snoc[of B "walkerB w" eb ev] r(2)
    unfolding fireEvents_snoc_fst by metis
  from a b show ?case by blast
qed

lemma newWalker_sub_walkers:
  "walkerA (newWalker B el r) = sub_newWalker B (patA el) r"
  "walkerB (newWalker B el r) = sub_newWalker B (patB el) r"
  by (simp_all add: newWalker_def Let_def)


lemma newWalker_swap:
  "newWalker B \<lparr> patA = patB el, patB = patA el \<rparr> r = swap (newWalker B el r)"
  by (auto simp: newWalker_def swap_def Interleave_hasAttrs_def Let_def)

lemma fireEvent_swap:
  assumes q: "rejects_quietly B"
    and n: "\<not> (matched (snd (sub_fireEvent B (walkerA w) name params)) \<and>
               matched (snd (sub_fireEvent B (walkerB w) name params)))"
  shows "fireEvent B (swap w) name params =
           (swap (fst (fireEvent B w name params)), snd (fireEvent B w name params))"
proof -
  have qa: "\<not> matched (snd (sub_fireEvent B (walkerA w) name params)) \<Longrightarrow>
            fst (sub_fireEvent B (walkerA w) name params) = walkerA w"
    and qb: "\<not> matched (snd (sub_fireEvent B (walkerB w) name params)) \<Longrightarrow>
            fst (sub_fireEvent B (walkerB w) name params) = walkerB w"
    using q by (simp_all add: rejects_quietly_def)
  obtain a ra where a: "sub_fireEvent B (walkerA w) name params = (a, ra)" by force
  obtain b rb where b: "sub_fireEvent B (walkerB w) name params = (b, rb)" by force
  show ?thesis
    using n qa qb a b
    by (cases "matched ra"; cases "matched rb")
       (auto simp: fireEvent_def swap_def Let_def conj_commute)
qed

lemma never_both_match_step:
  assumes "never_both_match B w"
  shows "never_both_match B (fst (fireEvent B w name params))"
  unfolding never_both_match_def
proof (intro allI)
  fix evs n ps
  from assms have "\<not> (matched (snd (sub_fireEvent B (walkerA (fst (fireEvents B w ((name, params) # evs)))) n ps)) \<and>
           matched (snd (sub_fireEvent B (walkerB (fst (fireEvents B w ((name, params) # evs)))) n ps)))"
    unfolding never_both_match_def by blast
  then show "\<not> (matched (snd (sub_fireEvent B (walkerA (fst (fireEvents B (fst (fireEvent B w name params)) evs))) n ps)) \<and>
           matched (snd (sub_fireEvent B (walkerB (fst (fireEvents B (fst (fireEvent B w name params)) evs))) n ps)))"
    by (simp add: case_prod_beta)
qed

lemma never_both_match_now:
  assumes "never_both_match B w"
  shows "\<not> (matched (snd (sub_fireEvent B (walkerA w) name params)) \<and>
           matched (snd (sub_fireEvent B (walkerB w) name params)))"
  using assms[unfolded never_both_match_def, rule_format, of "[]" name params] by simp

lemma fireEvents_swap:
  assumes q: "rejects_quietly B"
  shows "never_both_match B w \<Longrightarrow>
         fireEvents B (swap w) evs = (swap (fst (fireEvents B w evs)), snd (fireEvents B w evs))"
proof (induction evs arbitrary: w)
  case Nil
  show ?case by simp
next
  case (Cons ev evs)
  show ?case
    using fireEvent_swap[OF q never_both_match_now[OF Cons.prems], of "fst ev" "snd ev"]
      Cons.IH[OF never_both_match_step[OF Cons.prems, of "fst ev" "snd ev"]]
    by (simp add: case_prod_beta)
qed

lemma endWalker_swap:
  "snd (endWalker B (swap w)) = None \<longleftrightarrow> snd (endWalker B w) = None"
  by (auto simp: endWalker_def swap_def Let_def split: prod.splits option.splits)

lemma clone_alike:
  assumes "\<forall>s memo. R (fst (sub_clone B s memo)) s"
  shows "alike R (fst (clone B w memo)) w"
proof -
  obtain r m1 where r: "cloneIfNeeded B (nameResolver w) memo = (r, m1)" by force
  obtain a m2 where a: "sub_clone B (walkerA w) m1 = (a, m2)" by force
  obtain b m3 where b: "sub_clone B (walkerB w) m2 = (b, m3)" by force
  have "R a (walkerA w)" "R b (walkerB w)"
    using assms a b by (metis fst_conv)+
  then show ?thesis
    by (simp add: clone_def alike_def r a b)
qed

lemma fireEvent_alike:
  assumes h: "behaves_alike B R" and vw: "alike R v w"
  shows "snd (fireEvent B v name params) = snd (fireEvent B w name params) \<and>
         alike R (fst (fireEvent B v name params)) (fst (fireEvent B w name params))"
proof -
  have o: "\<And>s t. R s t \<Longrightarrow>
      sub_canEnd B s = sub_canEnd B t \<and> sub_canEndAttribute B s = sub_canEndAttribute B t \<and>
      snd (sub_fireEvent B s name params) = snd (sub_fireEvent B t name params) \<and>
      R (fst (sub_fireEvent B s name params)) (fst (sub_fireEvent B t name params))"
    using h unfolding behaves_alike_def by blast
  obtain a ra where a: "sub_fireEvent B (walkerA w) name params = (a, ra)" by force
  obtain b rb where b: "sub_fireEvent B (walkerB w) name params = (b, rb)" by force
  obtain a' ra' where a': "sub_fireEvent B (walkerA v) name params = (a', ra')" by force
  obtain b' rb' where b': "sub_fireEvent B (walkerB v) name params = (b', rb')" by force
  have ra: "ra' = ra" "R a' a" "sub_canEnd B a' = sub_canEnd B a" "sub_canEndAttribute B a' = sub_canEndAttribute B a"
    using o[of "walkerA v" "walkerA w"] vw a a' o[of a' a] by (simp_all add: alike_def)
  have rb: "rb' = rb" "R b' b" "sub_canEnd B b' = sub_canEnd B b" "sub_canEndAttribute B b' = sub_canEndAttribute B b"
    using o[of "walkerB v" "walkerB w"] vw b b' o[of b' b] by (simp_all add: alike_def)
  have f: "sub_canEnd B (walkerA v) = sub_canEnd B (walkerA w)" "sub_canEnd B (walkerB v) = sub_canEnd B (walkerB w)"
     "sub_canEndAttribute B (walkerA v) = sub_canEndAttribute B (walkerA w)"
     "sub_canEndAttribute B (walkerB v) = sub_canEndAttribute B (walkerB w)"
    using o[of "walkerA v" "walkerA w"] o[of "walkerB v" "walkerB w"] vw by (simp_all add: alike_def)
  show ?thesis
    using vw ra rb f a b a' b'
    by (simp add: fireEvent_def alike_def Let_def)
qed

lemma fireEvents_alike:
  assumes h: "behaves_alike B R"
  shows "alike R v w \<Longrightarrow>
         snd (fireEvents B v evs) = snd (fireEvents B w evs) \<and>
         alike R (fst (fireEvents B v evs)) (fst (fireEvents B w evs))"
proof (induction evs arbitrary: v w)
  case Nil
  then show ?case by simp
next
  case (Cons ev evs)
  from fireEvent_alike[OF h Cons.prems, of "fst ev" "snd ev"]
  have 1: "snd (fireEvent B v (fst ev) (snd ev)) = snd (fireEvent B w (fst ev) (snd ev))"
    and 2: "alike R (fst (fireEvent B v (fst ev) (snd ev))) (fst (fireEvent B w (fst ev) (snd ev)))"
    by simp_all
  from Cons.IH[OF 2] 1 show ?case
    by (simp add: case_prod_beta)
qed

lemma end_alike:
  assumes h: "behaves_alike B R" and vw: "alike R v w"
  shows "snd (endWalker B v) = snd (endWalker B w) \<and>
         snd (endAttributes B v) = snd (endAttributes B w)"
proof -
  have o: "\<And>s t. R s t \<Longrightarrow>
      snd (sub_end B s) = snd (sub_end B t) \<and>
      snd (sub_endAttributes B s) = snd (sub_endAttributes B t)"
    using h unfolding behaves_alike_def by blast
  show ?thesis
    using vw o[of "walkerA v" "walkerA w"] o[of "walkerB v" "walkerB w"]
    by (simp add: endWalker_def endAttributes_def alike_def Let_def case_prod_beta)
qed

lemma nullable_interleave_language:
  "nullable (interleave_language La Lb) = (nullable La \<and> nullable Lb)"
  by (auto simp: nullable_def interleave_language_def Nil_in_shuffles)

subsection \<open>Facts about the stand-ins\<close>

lemmas seq_simps = seqBase_def seq_fireEvent_def newWalker_def fireEvent_def endWalker_def
  Interleave_hasAttrs_def isAttributeEvent_def unmatched_def elementPattern_def
  attributePattern_def Let_def

lemma seq_rejects_quietly: "rejects_quietly seqBase"
  by (auto simp: rejects_quietly_def seqBase_def seq_fireEvent_def unmatched_def split: list.splits)


lemma seq_canEnd_iff_end: "sub_canEnd_iff_end seqBase p r"
  by (simp add: sub_canEnd_iff_end_def seqBase_def)

lemma seq_clones_behave_alike: "clones_behave_alike seqBase (=)"
  by (simp add: clones_behave_alike_def behaves_alike_def seqBase_def)

lemma value_rejects_quietly: "rejects_quietly valueBase"
  by (auto simp: rejects_quietly_def valueBase_def seqBase_def seq_fireEvent_def unmatched_def
      split: list.splits)

lemma value_canEndAttribute_moves_on_text:
  "\<not> canEndAttribute_moves_on_attribute_events valueBase (valuePattern ''x'') ()"
proof
  assume "canEndAttribute_moves_on_attribute_events valueBase (valuePattern ''x'') ()"
  then have "\<not> isAttributeEvent ''text'' \<longrightarrow>
      sub_canEndAttribute valueBase
        (fst (sub_fireEvent valueBase
               (sub_fireEvents valueBase (sub_newWalker valueBase (valuePattern ''x'') ()) [])
               ''text'' [''x''])) =
      sub_canEndAttribute valueBase
        (sub_fireEvents valueBase (sub_newWalker valueBase (valuePattern ''x'') ()) [])"
    unfolding canEndAttribute_moves_on_attribute_events_def by blast
  then show False
    by (simp add: valueBase_def valuePattern_def seqBase_def seq_fireEvent_def isAttributeEvent_def)
qed

lemma seq_matched_in_set:
  "matched (snd (sub_fireEvent seqBase s name params)) \<Longrightarrow> (name, params) \<in> set s"
  by (auto simp: seqBase_def seq_fireEvent_def unmatched_def split: list.splits if_splits)

lemma seq_fire_subset: "set (fst (sub_fireEvent seqBase s name params)) \<subseteq> set s"
  by (auto simp: seqBase_def seq_fireEvent_def unmatched_def split: list.splits if_splits)

lemma seq_fireEvent_subset:
  "set (walkerA (fst (fireEvent seqBase w name params))) \<subseteq> set (walkerA w) \<and>
   set (walkerB (fst (fireEvent seqBase w name params))) \<subseteq> set (walkerB w)"
  using seq_fire_subset[of "walkerA w" name params] seq_fire_subset[of "walkerB w" name params]
  by (auto simp: fireEvent_def Let_def split: prod.splits)

lemma seq_fireEvents_subset:
  "set (walkerA (fst (fireEvents seqBase w evs))) \<subseteq> set (walkerA w) \<and>
   set (walkerB (fst (fireEvents seqBase w evs))) \<subseteq> set (walkerB w)"
proof (induction evs arbitrary: w)
  case Nil
  show ?case by simp
next
  case (Cons ev evs)
  from Cons[of "fst (fireEvent seqBase w (fst ev) (snd ev))"]
    seq_fireEvent_subset[of w "fst ev" "snd ev"]
  show ?case unfolding fireEvents_Cons_fst by blast
qed

lemma seq_never_both_match:
  assumes "set (walkerA w) \<inter> set (walkerB w) = {}"
  shows "never_both_match seqBase w"
  unfolding never_both_match_def
proof (intro allI notI)
  fix evs name params
  assume m: "matched (snd (sub_fireEvent seqBase (walkerA (fst (fireEvents seqBase w evs))) name params)) \<and>
             matched (snd (sub_fireEvent seqBase (walkerB (fst (fireEvents seqBase w evs))) name params))"
  then have "(name, params) \<in> set (walkerA (fst (fireEvents seqBase w evs)))"
    "(name, params) \<in> set (walkerB (fst (fireEvents seqBase w evs)))"
    by (simp_all add: seq_matched_in_set)
  with seq_fireEvents_subset[of w evs] assms show False by blast
qed

section \<open>Facts about the conversion walker\<close>

lemma andThen_InrE:
  assumes "andThen m f = Inr y"
  obtains x where "m = Inr x" "f x = Inr y"
  using assms by (cases m) (simp_all add: andThen_def)

lemma andThen_simps [simp]:
  "andThen (Inl ex) f = Inl ex" "andThen (Inr x) f = f x"
  by (simp_all add: andThen_def)

lemma closers_simps [simp]:
  "closers (openConstruct opn cls w) = cls # closers w"
  "closers (w\<lparr> inNameClass := b \<rparr>) = closers w"
  "closers (w\<lparr> outputStr := s \<rparr>) = closers w"
  by (simp_all add: closers_def openConstruct_def)

lemma outputStr_openConstruct [simp]:
  "outputStr (openConstruct opn cls w) = outputStr w @ opn"
  by (simp add: openConstruct_def)

lemma ok_refl [simp]: "ok w w"
  by (simp add: ok_def)

lemma ok_trans: "ok a b \<Longrightarrow> ok b c \<Longrightarrow> ok a c"
  by (auto simp: ok_def)

lemma ok_inNameClass [simp]: "ok (w\<lparr> inNameClass := b \<rparr>) w' = ok w w'"
  by (simp add: ok_def)

lemma newItem_ok: "newItem w = Inr w' \<Longrightarrow> ok w w'"
  by (auto simp: newItem_def ok_def closers_def split: list.splits if_splits)

lemma outputItem_ok: "outputItem it w = Inr w' \<Longrightarrow> ok w w'"
  by (auto simp: outputItem_def elim!: andThen_InrE dest!: newItem_ok) (auto simp: ok_def)

lemma outputAsString_ok: "outputAsString thing w = Inr w' \<Longrightarrow> ok w w'"
  by (auto simp: outputAsString_def elim!: andThen_InrE dest!: newItem_ok) (auto simp: ok_def)

lemma outputName_ok: "outputName C name w = Inr w' \<Longrightarrow> ok w w'"
  by (auto simp: outputName_def dest: outputItem_ok outputAsString_ok split: if_splits)

lemma outputCtor_ok: "outputCtor this n k w = Inr w' \<Longrightarrow> ok w w'"
  by (auto simp: outputCtor_def dest: outputItem_ok outputAsString_ok split: if_splits)

lemma outputPath_ok: "outputPath this el w = Inr w' \<Longrightarrow> ok w w'"
  by (auto simp: outputPath_def dest: outputAsString_ok split: if_splits)

lemma walkRef_ok: "walkRef C el w = Inr w' \<Longrightarrow> ok w w'"
  by (auto simp: walkRef_def elim!: andThen_InrE dest: outputName_ok)

lemma walkName_ok: "walkName el w = Inr w' \<Longrightarrow> ok w w'"
  by (auto simp: walkName_def elim!: andThen_InrE dest: outputAsString_ok ok_trans)

lemma walkValue_ok: "walkValue el w = Inr w' \<Longrightarrow> ok w w'"
  by (auto simp: walkValue_def elim!: andThen_InrE split: if_splits
        dest!: outputAsString_ok) (auto simp: ok_def)

lemma openArray_opened: "openArray this w = Inr w' \<Longrightarrow> opened '']'' w w'"
  by (auto simp: openArray_def opened_def dest!: outputItem_ok) (auto simp: ok_def)

lemma closeConstruct_closed: "closeConstruct cls w = Inr w' \<Longrightarrow> closed w w'"
  by (auto simp: closeConstruct_def closed_def closers_def split: list.splits if_splits)

lemmas prim_ok = newItem_ok outputItem_ok outputAsString_ok outputName_ok outputCtor_ok
  outputPath_ok walkRef_ok walkName_ok walkValue_ok openArray_opened closeConstruct_closed

lemma walkChildren_ok_aux:
  assumes "\<forall>c\<in>set xs. \<forall>w w'. walk C this c w = Inr w' \<longrightarrow> ok w w'"
    and "walkChildren C this xs w = Inr w'"
  shows "ok w w'"
  using assms
proof (induction xs arbitrary: w)
  case Nil
  then show ?case by simp
next
  case (Cons child rest)
  have r: "\<forall>c\<in>set rest. \<forall>w w'. walk C this c w = Inr w' \<longrightarrow> ok w w'"
    using Cons.prems(1) by simp
  show ?case
  proof (cases "isElement child")
    case True
    with Cons.prems(2) obtain x where
      x: "walk C this child w = Inr x" "walkChildren C this rest x = Inr w'"
      by (auto elim!: andThen_InrE)
    have "ok w x" using Cons.prems(1) x(1) by simp
    moreover have "ok x w'" using r x(2) by (rule Cons.IH)
    ultimately show ?thesis by (rule ok_trans)
  next
    case False
    with Cons.prems(2) have e: "walkChildren C this rest w = Inr w'" by simp
    show ?thesis using r e by (rule Cons.IH)
  qed
qed

lemma array_then_ok:
  assumes "andThen (newItem w) (\<lambda>w. andThen (openArray this w) (\<lambda>w. andThen (body w) (\<lambda>w.
             andThen (closeConstruct '']'' w) tail))) = Inr w'"
    and "\<And>x y. body x = Inr y \<Longrightarrow> ok x y"
    and "\<And>x y. tail x = Inr y \<Longrightarrow> ok x y"
  shows "ok w w'"
proof -
  from assms(1) obtain a b c d where
    s: "newItem w = Inr a" "openArray this a = Inr b" "body b = Inr c"
       "closeConstruct '']'' c = Inr d" "tail d = Inr w'"
    by (elim andThen_InrE) blast
  have "ok w a" "opened '']'' a b" "ok b c" "closed c d" "ok d w'"
    using s assms(2,3) by (auto dest: prim_ok)
  then show ?thesis
    by (auto simp: ok_def opened_def closed_def)
qed

lemma array_ok:
  assumes "andThen (newItem w) (\<lambda>w. andThen (openArray this w) (\<lambda>w. andThen (body w) (\<lambda>w.
             closeConstruct '']'' w))) = Inr w'"
    and "\<And>x y. body x = Inr y \<Longrightarrow> ok x y"
  shows "ok w w'"
proof -
  from assms(1) obtain a b c where
    s: "newItem w = Inr a" "openArray this a = Inr b" "body b = Inr c"
       "closeConstruct '']'' c = Inr w'"
    by (elim andThen_InrE) blast
  have "ok w a" "opened '']'' a b" "ok b c" "closed c w'"
    using s assms(2) by (auto dest: prim_ok)
  then show ?thesis
    by (auto simp: ok_def opened_def closed_def)
qed

lemma walkArgs_ok_aux:
  assumes IH: "\<And>c w w'. c \<in> set cs \<Longrightarrow> walk C this c w = Inr w' \<Longrightarrow> ok w w'"
    and eq: "walkArgs C this elName pth attrs cs w = Inr w'"
  shows "ok w w'"
proof -
  have ch: "\<And>xs x y. set xs \<subseteq> set cs \<Longrightarrow> walkChildren C this xs x = Inr y \<Longrightarrow> ok x y"
  proof -
    fix xs x y
    assume s: "set xs \<subseteq> set cs" and e: "walkChildren C this xs x = Inr y"
    have "\<forall>c\<in>set xs. \<forall>w w'. walk C this c w = Inr w' \<longrightarrow> ok w w'"
      using IH s by blast
    then show "ok x y" using e by (rule walkChildren_ok_aux)
  qed
  have ch0: "\<And>x y. walkChildren C this cs x = Inr y \<Longrightarrow> ok x y"
    using ch[OF subset_refl] by blast
  have ch1: "\<And>x y. walkChildren C this (drop 1 cs) x = Inr y \<Longrightarrow> ok x y"
    using ch[of "drop 1 cs"] by (simp add: set_drop_subset)
  have first: "\<And>x y. (case cs of [] \<Rightarrow> Inl TypeError | c # rest \<Rightarrow> walk C this c x) = Inr y \<Longrightarrow> ok x y"
    using IH by (auto split: list.splits)
  consider (ref) "elName = ''ref''" | (def) "elName = ''define''" | (val) "elName = ''value''"
    | (data) "elName = ''data''"
    | (group) "elName = ''group'' \<or> elName = ''interleave'' \<or> elName = ''choice'' \<or> elName = ''oneOrMore''"
    | (element) "elName = ''element'' \<or> elName = ''attribute''"
    | (name) "elName = ''name''" | (nsName) "elName = ''nsName''"
    | (other) "elName \<noteq> ''ref'' \<and> elName \<noteq> ''define'' \<and> elName \<noteq> ''value'' \<and>
         elName \<noteq> ''data'' \<and>
         \<not> (elName = ''group'' \<or> elName = ''interleave'' \<or> elName = ''choice'' \<or> elName = ''oneOrMore'') \<and>
         \<not> (elName = ''element'' \<or> elName = ''attribute'') \<and>
         elName \<noteq> ''name'' \<and> elName \<noteq> ''nsName''"
    by argo
  then show ?thesis
  proof cases
    case ref
    with eq show ?thesis by (simp add: walkArgs.simps walkRef_ok)
  next
    case def
    with eq obtain name x where
      x: "outputName C name w = Inr x"
         "andThen (newItem x) (\<lambda>w. andThen (openArray this w) (\<lambda>w.
            andThen (walkChildren C this cs w) (\<lambda>w. closeConstruct '']'' w))) = Inr w'"
      by (simp add: walkArgs.simps) (erule andThen_InrE, erule andThen_InrE, blast)
    from array_ok[OF x(2)] ch0 have "ok x w'" by simp
    with outputName_ok[OF x(1)] show ?thesis by (rule ok_trans)
  next
    case val
    with eq show ?thesis by (simp add: walkArgs.simps walkValue_ok)
  next
    case data
    let ?hasParams = "cs \<noteq> [] \<and> localOf (hd cs) = Some ''param''"
    let ?hasExcept = "cs \<noteq> [] \<and> localOf (last cs) = Some ''except''"
    let ?tail = "\<lambda>w. if ?hasExcept then walk C this (last cs) w else Inr w"
    let ?body = "\<lambda>w. if ?hasParams
                     then walkChildren C this (if ?hasExcept then take (length cs - 1) cs else cs) w
                     else Inr w"
    have t: "\<And>x y. ?tail x = Inr y \<Longrightarrow> ok x y"
      using IH[of "last cs"] by (auto split: if_splits)
    have b: "\<And>x y. ?body x = Inr y \<Longrightarrow> ok x y"
      using ch[of "take (length cs - 1) cs"] ch0
      by (auto split: if_splits dest: in_set_takeD)
    from data eq obtain typeAttr datatypeLibraryAttr where
      e: "(if typeAttr \<noteq> ''token'' \<or> datatypeLibraryAttr \<noteq> [] \<or> ?hasParams \<or> ?hasExcept then
              andThen (outputAsString typeAttr w) (\<lambda>w.
              if datatypeLibraryAttr \<noteq> [] \<or> ?hasParams \<or> ?hasExcept then
                andThen (outputAsString datatypeLibraryAttr w) (\<lambda>w.
                if ?hasParams \<or> ?hasExcept then
                  andThen (newItem w) (\<lambda>w.
                  andThen (openArray this w) (\<lambda>w.
                  andThen (?body w) (\<lambda>w.
                  andThen (closeConstruct '']'' w) ?tail)))
                else Inr w)
              else Inr w)
            else Inr w) = Inr w'"
      by (simp add: walkArgs.simps Let_def) (elim andThen_InrE, blast)
    show ?thesis
    proof (cases "typeAttr \<noteq> ''token'' \<or> datatypeLibraryAttr \<noteq> [] \<or> ?hasParams \<or> ?hasExcept")
      case False
      with e show ?thesis by auto
    next
      case c1: True
      with e obtain x where
        x: "outputAsString typeAttr w = Inr x"
           "(if datatypeLibraryAttr \<noteq> [] \<or> ?hasParams \<or> ?hasExcept then
                andThen (outputAsString datatypeLibraryAttr x) (\<lambda>w.
                if ?hasParams \<or> ?hasExcept then
                  andThen (newItem w) (\<lambda>w.
                  andThen (openArray this w) (\<lambda>w.
                  andThen (?body w) (\<lambda>w.
                  andThen (closeConstruct '']'' w) ?tail)))
                else Inr w)
              else Inr x) = Inr w'"
        by (simp only: if_True) (elim andThen_InrE, blast)
      have wx: "ok w x" by (rule outputAsString_ok[OF x(1)])
      show ?thesis
      proof (cases "datatypeLibraryAttr \<noteq> [] \<or> ?hasParams \<or> ?hasExcept")
        case False
        with x(2) wx show ?thesis by auto
      next
        case c2: True
        with x(2) obtain y where
          y: "outputAsString datatypeLibraryAttr x = Inr y"
             "(if ?hasParams \<or> ?hasExcept then
                  andThen (newItem y) (\<lambda>w.
                  andThen (openArray this w) (\<lambda>w.
                  andThen (?body w) (\<lambda>w.
                  andThen (closeConstruct '']'' w) ?tail)))
                else Inr y) = Inr w'"
          by (simp only: if_True) (elim andThen_InrE, blast)
        have xy: "ok x y" by (rule outputAsString_ok[OF y(1)])
        have "ok y w'"
        proof (cases "?hasParams \<or> ?hasExcept")
          case False
          with y(2) show ?thesis by auto
        next
          case True
          with y(2) have "andThen (newItem y) (\<lambda>w.
                  andThen (openArray this w) (\<lambda>w.
                  andThen (?body w) (\<lambda>w.
                  andThen (closeConstruct '']'' w) ?tail))) = Inr w'"
            by (simp only: if_True)
          from array_then_ok[OF this b t] show ?thesis .
        qed
        with wx xy show ?thesis by (blast intro: ok_trans)
      qed
    qed
  next
    case group
    with eq have "andThen (newItem w) (\<lambda>w. andThen (openArray this w) (\<lambda>w.
            andThen (walkChildren C this cs w) (\<lambda>w. closeConstruct '']'' w))) = Inr w'"
      by (elim disjE; simp add: walkArgs.simps)
    from array_ok[OF this] ch0 show ?thesis by simp
  next
    case element
    with eq have "andThen (case cs of [] \<Rightarrow> Inl TypeError
                 | c # rest \<Rightarrow> walk C this c (w\<lparr> inNameClass := True \<rparr>)) (\<lambda>w.
        andThen (newItem (w\<lparr> inNameClass := False \<rparr>)) (\<lambda>w.
        andThen (openArray this w) (\<lambda>w.
        andThen (walkChildren C this (drop 1 cs) w) (\<lambda>w.
        closeConstruct '']'' w)))) = Inr w'"
      by (elim disjE; simp add: walkArgs.simps)
    then obtain x where
      x: "(case cs of [] \<Rightarrow> Inl TypeError | c # rest \<Rightarrow> walk C this c (w\<lparr> inNameClass := True \<rparr>)) = Inr x"
         "andThen (newItem (x\<lparr> inNameClass := False \<rparr>)) (\<lambda>w. andThen (openArray this w) (\<lambda>w.
            andThen (walkChildren C this (drop 1 cs) w) (\<lambda>w. closeConstruct '']'' w))) = Inr w'"
      by (rule andThen_InrE)
    from first[OF x(1)] have "ok w x" by simp
    moreover from array_ok[OF x(2)] ch1 have "ok x w'" by simp
    ultimately show ?thesis by (rule ok_trans)
  next
    case name
    with eq show ?thesis by (simp add: walkArgs.simps walkName_ok)
  next
    case nsName
    with eq obtain ns x where
      x: "outputAsString ns w = Inr x" "walkChildren C this cs x = Inr w'"
      by (simp add: walkArgs.simps) (elim andThen_InrE, blast)
    from outputAsString_ok[OF x(1)] ch0[OF x(2)] show ?thesis by (rule ok_trans)
  next
    case other
    with eq have "walkChildren C this cs w = Inr w'"
      by (simp add: walkArgs.simps)
    then show ?thesis by (rule ch0)
  qed
qed

declare walkArgs.simps [simp del]

lemma walk_grammar:
  \<open>walk C this (Element ''grammar'' pth attrs cs) w =
     andThen (outputItem (String (''"v":3,"o":'' @
                    showNat (if includePaths this then 0 else OPTION_NO_PATHS) @ '',"d":''))
                  (openConstruct ''{'' ''}'' w)) (\<lambda>a.
     case nameToCode C ''Grammar'' of
       None \<Rightarrow> Inl (cannotFindConstructor ''Grammar'')
     | Some ctor \<Rightarrow>
         andThen (outputCtor this ''Grammar'' ctor (openConstruct ''['' '']'' a)) (\<lambda>b.
         andThen (outputPath this (Element ''grammar'' pth attrs cs) b) (\<lambda>c.
         andThen (case cs of [] \<Rightarrow> Inl TypeError | k # rest \<Rightarrow> walk C this k c) (\<lambda>d.
         andThen (newItem d) (\<lambda>e.
         andThen (openArray this e) (\<lambda>f.
         andThen (walkChildren C this (drop 1 cs) f) (\<lambda>g.
         andThen (closeConstruct '']'' g) (\<lambda>h.
         andThen (closeConstruct '']'' h) (\<lambda>i.
         closeConstruct ''}'' i)))))))))\<close>
  by simp

lemma walk_default:
  assumes "elName \<noteq> ''start''" "elName \<noteq> ''param''" "elName \<noteq> ''grammar''"
    and "capitalize elName \<noteq> ''Except''"
  shows "walk C this (Element elName pth attrs cs) w =
     andThen (newItem w) (\<lambda>a.
     case nameToCode C (if inNameClass w \<and> capitalize elName = ''Choice'' then ''NameChoice''
                        else capitalize elName) of
       None \<Rightarrow> Inl (cannotFindConstructor
                 (if inNameClass w \<and> capitalize elName = ''Choice'' then ''NameChoice''
                  else capitalize elName))
     | Some ctor \<Rightarrow>
         andThen (outputCtor this (if inNameClass w \<and> capitalize elName = ''Choice'' then ''NameChoice''
                        else capitalize elName) ctor (openConstruct ''['' '']'' a)) (\<lambda>b.
         andThen (outputPath this (Element elName pth attrs cs) b) (\<lambda>c.
         andThen (walkArgs C this elName pth attrs cs c) (\<lambda>d.
         closeConstruct '']'' d))))"
  using assms by (simp add: Let_def)

lemma walk_ok: "walk C this n w = Inr w' \<Longrightarrow> ok w w'"
proof (induction n arbitrary: w w')
  case (Text t)
  then show ?case by simp
next
  case (Element elName pth attrs cs)
  have IH: "\<And>c w w'. c \<in> set cs \<Longrightarrow> walk C this c w = Inr w' \<Longrightarrow> ok w w'"
    using Element.IH by blast
  have ch: "\<And>xs x y. set xs \<subseteq> set cs \<Longrightarrow> walkChildren C this xs x = Inr y \<Longrightarrow> ok x y"
  proof -
    fix xs x y
    assume s: "set xs \<subseteq> set cs" and e: "walkChildren C this xs x = Inr y"
    have "\<forall>c\<in>set xs. \<forall>w w'. walk C this c w = Inr w' \<longrightarrow> ok w w'"
      using IH s by blast
    then show "ok x y" using e by (rule walkChildren_ok_aux)
  qed
  have ch0: "\<And>x y. walkChildren C this cs x = Inr y \<Longrightarrow> ok x y"
    using ch[OF subset_refl] by blast
  have ch1: "\<And>x y. walkChildren C this (drop 1 cs) x = Inr y \<Longrightarrow> ok x y"
    using ch[of "drop 1 cs"] by (simp add: set_drop_subset)
  have first: "\<And>x y. (case cs of [] \<Rightarrow> Inl TypeError | c # rest \<Rightarrow> walk C this c x) = Inr y \<Longrightarrow> ok x y"
    using IH by (auto split: list.splits)
  have args: "\<And>x y. walkArgs C this elName pth attrs cs x = Inr y \<Longrightarrow> ok x y"
    using IH by (rule walkArgs_ok_aux)
  note eq = Element.prems
  consider (start) "elName = ''start''" | (param) "elName = ''param''"
    | (grammar) "elName = ''grammar''"
    | (other) "elName \<noteq> ''start'' \<and> elName \<noteq> ''param'' \<and> elName \<noteq> ''grammar''"
    by argo
  then show ?case
  proof cases
    case start
    with eq have "walkChildren C this cs w = Inr w'" by simp
    then show ?thesis by (rule ch0)
  next
    case param
    with eq obtain name x where
      x: "outputAsString name w = Inr x"
         "(case cs of [] \<Rightarrow> Inl TypeError | c # rest \<Rightarrow> outputAsString (nodeText c) x) = Inr w'"
      by simp (erule andThen_InrE, erule andThen_InrE, blast)
    from x(2) have "ok x w'" by (auto split: list.splits dest: outputAsString_ok)
    with outputAsString_ok[OF x(1)] show ?thesis by (rule ok_trans)
  next
    case grammar
    with eq have "walk C this (Element ''grammar'' pth attrs cs) w = Inr w'" by simp
    then obtain a ctor b c d e f g h i where
      s: \<open>outputItem (String (''"v":3,"o":'' @
                    showNat (if includePaths this then 0 else OPTION_NO_PATHS) @ '',"d":''))
                  (openConstruct ''{'' ''}'' w) = Inr a\<close>
         "nameToCode C ''Grammar'' = Some ctor"
         "outputCtor this ''Grammar'' ctor (openConstruct ''['' '']'' a) = Inr b"
         "outputPath this (Element ''grammar'' pth attrs cs) b = Inr c"
         "(case cs of [] \<Rightarrow> Inl TypeError | k # rest \<Rightarrow> walk C this k c) = Inr d"
         "newItem d = Inr e"
         "openArray this e = Inr f"
         "walkChildren C this (drop 1 cs) f = Inr g"
         "closeConstruct '']'' g = Inr h"
         "closeConstruct '']'' h = Inr i"
         "closeConstruct ''}'' i = Inr w'"
      unfolding walk_grammar
      by (elim andThen_InrE, clarsimp split: option.splits, elim andThen_InrE, blast)
    have "ok (openConstruct ''{'' ''}'' w) a" "ok (openConstruct ''['' '']'' a) b" "ok b c" "ok c d"
      "ok d e" "opened '']'' e f" "ok f g" "closed g h" "closed h i" "closed i w'"
      using s first ch1 by (auto dest: prim_ok)
    then show ?thesis
      by (auto simp: ok_def opened_def closed_def)
  next
    case other
    show ?thesis
    proof (cases "capitalize elName = ''Except''")
      case True
      with other eq have "walkChildren C this cs w = Inr w'" by (simp add: Let_def)
      then show ?thesis by (rule ch0)
    next
      case False
      from other have o: "elName \<noteq> ''start''" "elName \<noteq> ''param''" "elName \<noteq> ''grammar''"
        by simp_all
      from eq[unfolded walk_default[OF o False]] obtain a cap ctor b c d where
        s: "newItem w = Inr a"
           "nameToCode C cap = Some ctor"
           "outputCtor this cap ctor (openConstruct ''['' '']'' a) = Inr b"
           "outputPath this (Element elName pth attrs cs) b = Inr c"
           "walkArgs C this elName pth attrs cs c = Inr d"
           "closeConstruct '']'' d = Inr w'"
        by (elim andThen_InrE, clarsimp split: option.splits, elim andThen_InrE, blast)
      have "ok w a" "ok (openConstruct ''['' '']'' a) b" "ok b c" "ok c d" "closed d w'"
        using s args by (auto dest: prim_ok)
      then show ?thesis
        by (auto simp: ok_def opened_def closed_def)
    qed
  qed
qed

lemma walkChildren_ok: "walkChildren C this xs w = Inr w' \<Longrightarrow> ok w w'"
  by (rule walkChildren_ok_aux) (auto intro: walk_ok)

lemma walkArgs_ok: "walkArgs C this elName pth attrs cs w = Inr w' \<Longrightarrow> ok w w'"
  by (rule walkArgs_ok_aux) (auto intro: walk_ok)

lemma first_walk_ok:
  "(case cs of [] \<Rightarrow> Inl TypeError | k # rest \<Rightarrow> walk C this k w) = Inr w' \<Longrightarrow> ok w w'"
  by (auto split: list.splits intro: walk_ok)

lemma newItem_exact:
  assumes "newItem w = Inr a"
  shows "outputStr a = outputStr w @ (if first (hd (constructState w)) then [] else '','')"
    and "closers a = closers w"
  using assms by (auto simp: newItem_def closers_def split: list.splits if_splits)

lemma outputItem_fresh:
  assumes "outputItem it (openConstruct opn cls w) = Inr a"
  shows "outputStr a = outputStr w @ opn @ (case it of Number n \<Rightarrow> showNat n | String s \<Rightarrow> s)"
    and "closers a = cls # closers w"
  using assms by (auto simp: outputItem_def newItem_def openConstruct_def closers_def)

lemma outputCtor_fresh:
  assumes "outputCtor this n k (openConstruct opn cls a) = Inr b"
  shows "outputStr b = outputStr a @ opn @
           (if verbose this then [CHR 0x22] @ escape n @ [CHR 0x22] else showNat k)"
    and "closers b = cls # closers a"
    and "constructState b \<noteq> []"
    and "\<not> first (hd (constructState b))"
  using assms
  by (auto simp: outputCtor_def outputAsString_def outputItem_def newItem_def openConstruct_def
        closers_def split: if_splits)

lemma outputPath_exact:
  assumes "outputPath this el b = Inr c" and "constructState b \<noteq> []"
    and "\<not> first (hd (constructState b))"
  shows "outputStr c = outputStr b @
           (if includePaths this then '','' @ [CHR 0x22] @ escape (path el) @ [CHR 0x22] else [])"
    and "closers c = closers b"
  using assms
  by (auto simp: outputPath_def outputAsString_def newItem_def closers_def
        split: if_splits list.splits)

lemma closeConstruct_exact:
  assumes "closeConstruct cls d = Inr w'" and "closers d = c # rest"
  shows "outputStr w' = outputStr d @ cls" and "closers w' = rest"
  using assms by (auto simp: closeConstruct_def closers_def split: list.splits if_splits)

lemma walk_default_shape:
  assumes "elName \<noteq> ''start''" "elName \<noteq> ''param''" "elName \<noteq> ''grammar''"
    and "capitalize elName \<noteq> ''Except''"
    and eq: "walk C this (Element elName pth attrs cs) w = Inr w'"
  shows "\<exists>ctor x x' args.
           nameToCode C (if inNameClass w \<and> capitalize elName = ''Choice'' then ''NameChoice''
                         else capitalize elName) = Some ctor \<and>
           walkArgs C this elName pth attrs cs x = Inr x' \<and>
           outputStr x' = outputStr x @ args \<and>
           outputStr w' = outputStr w @ (if first (hd (constructState w)) then [] else '','') @
             ''['' @
             (if verbose this
              then [CHR 0x22] @ escape (if inNameClass w \<and> capitalize elName = ''Choice''
                                         then ''NameChoice'' else capitalize elName) @ [CHR 0x22]
              else showNat ctor) @
             (if includePaths this then '','' @ [CHR 0x22] @ escape pth @ [CHR 0x22] else []) @
             args @ '']''"
proof -
  let ?cap = "if inNameClass w \<and> capitalize elName = ''Choice'' then ''NameChoice''
              else capitalize elName"
  from eq[unfolded walk_default[OF assms(1-4)]] obtain a ctor b c d where
    s: "newItem w = Inr a"
       "nameToCode C ?cap = Some ctor"
       "outputCtor this ?cap ctor (openConstruct ''['' '']'' a) = Inr b"
       "outputPath this (Element elName pth attrs cs) b = Inr c"
       "walkArgs C this elName pth attrs cs c = Inr d"
       "closeConstruct '']'' d = Inr w'"
    by (elim andThen_InrE, clarsimp split: option.splits, elim andThen_InrE, blast)
  from walkArgs_ok[OF s(5)] obtain args where
    args: "outputStr d = outputStr c @ args" "closers d = closers c"
    by (auto simp: ok_def)
  note a = newItem_exact[OF s(1)]
  note b = outputCtor_fresh[OF s(3)]
  note c = outputPath_exact[OF s(4) b(3,4)]
  have "closers d = '']'' # closers a" using args(2) c(2) b(2) by simp
  note d = closeConstruct_exact[OF s(6) this]
  have "outputStr w' = outputStr w @ (if first (hd (constructState w)) then [] else '','') @
             ''['' @
             (if verbose this then [CHR 0x22] @ escape ?cap @ [CHR 0x22] else showNat ctor) @
             (if includePaths this then '','' @ [CHR 0x22] @ escape pth @ [CHR 0x22] else []) @
             args @ '']''"
    unfolding d(1) args(1) c(1) b(1) a(1) by simp
  with s(2) s(5) args(1) show ?thesis by blast
qed

lemma walk_grammar_shape:
  assumes eq: "walk C this (Element ''grammar'' pth attrs cs) w = Inr w'"
  shows "\<exists>ctor rest.
           nameToCode C ''Grammar'' = Some ctor \<and>
           outputStr w' = outputStr w @ ''{'' @ [CHR 0x22] @ ''v'' @ [CHR 0x22] @ '':3,'' @
             [CHR 0x22] @ ''o'' @ [CHR 0x22] @ '':'' @
             showNat (if includePaths this then 0 else OPTION_NO_PATHS) @
             '','' @ [CHR 0x22] @ ''d'' @ [CHR 0x22] @ '':'' @ ''['' @
             (if verbose this then [CHR 0x22] @ escape ''Grammar'' @ [CHR 0x22] else showNat ctor) @
             (if includePaths this then '','' @ [CHR 0x22] @ escape pth @ [CHR 0x22] else []) @
             rest @ '']}''"
proof -
  from eq[unfolded walk_grammar] obtain a ctor b c d e f g h i where
    s: \<open>outputItem (String (''"v":3,"o":'' @
                    showNat (if includePaths this then 0 else OPTION_NO_PATHS) @ '',"d":''))
                  (openConstruct ''{'' ''}'' w) = Inr a\<close>
       "nameToCode C ''Grammar'' = Some ctor"
       "outputCtor this ''Grammar'' ctor (openConstruct ''['' '']'' a) = Inr b"
       "outputPath this (Element ''grammar'' pth attrs cs) b = Inr c"
       "(case cs of [] \<Rightarrow> Inl TypeError | k # rest \<Rightarrow> walk C this k c) = Inr d"
       "newItem d = Inr e"
       "openArray this e = Inr f"
       "walkChildren C this (drop 1 cs) f = Inr g"
       "closeConstruct '']'' g = Inr h"
       "closeConstruct '']'' h = Inr i"
       "closeConstruct ''}'' i = Inr w'"
    by (elim andThen_InrE, clarsimp split: option.splits, elim andThen_InrE, blast)
  note a = outputItem_fresh[OF s(1)]
  note b = outputCtor_fresh[OF s(3)]
  note c = outputPath_exact[OF s(4) b(3,4)]
  have "ok c d" "ok d e" "opened '']'' e f" "ok f g"
    using s by (auto dest: first_walk_ok newItem_ok openArray_opened walkChildren_ok)
  then obtain mid where
    g: "outputStr g = outputStr c @ mid" "closers g = '']'' # closers c"
    by (auto simp: ok_def opened_def)
  have "closers g = '']'' # '']'' # ''}'' # closers w"
    using g(2) c(2) b(2) a(2) by simp
  note h = closeConstruct_exact[OF s(9) this]
  note i = closeConstruct_exact[OF s(10) h(2)]
  note j = closeConstruct_exact[OF s(11) i(2)]
  have "outputStr w' = outputStr w @ ''{'' @ [CHR 0x22] @ ''v'' @ [CHR 0x22] @ '':3,'' @
             [CHR 0x22] @ ''o'' @ [CHR 0x22] @ '':'' @
             showNat (if includePaths this then 0 else OPTION_NO_PATHS) @
             '','' @ [CHR 0x22] @ ''d'' @ [CHR 0x22] @ '':'' @ ''['' @
             (if verbose this then [CHR 0x22] @ escape ''Grammar'' @ [CHR 0x22] else showNat ctor) @
             (if includePaths this then '','' @ [CHR 0x22] @ escape pth @ [CHR 0x22] else []) @
             (mid @ '']'') @ '']}''"
    unfolding j(1) i(1) h(1) g(1) c(1) b(1) a(1) by simp
  with s(2) show ?thesis by blast
qed

lemma nodeText_repath [simp]: "nodeText (repath f n) = nodeText n"
  by (induction n) (simp_all cong: map_cong)

lemma isElement_repath [simp]: "isElement (repath f n) = isElement n"
  by (cases n) (simp_all add: isElement_def)

lemma localOf_repath [simp]: "localOf (repath f n) = localOf n"
  by (cases n) (simp_all add: localOf_def)

lemma mustGetAttribute_path:
  "mustGetAttribute (Element l p' a cs') nm = mustGetAttribute (Element l p a cs) nm"
  by (simp add: mustGetAttribute_def)

lemma nodeText_children:
  "nodeText (Element l p' a (map (repath f) cs)) = nodeText (Element l p a cs)"
  by (simp cong: map_cong)

lemma walkRef_path:
  "walkRef C (Element l p' a cs') w = walkRef C (Element l p a cs) w"
  by (simp add: walkRef_def mustGetAttribute_path[of l p' a cs' _ p cs])

lemma walkValue_path:
  "walkValue (Element l p' a (map (repath f) cs)) w = walkValue (Element l p a cs) w"
  unfolding walkValue_def nodeText_children[of l p' a f cs p]
    mustGetAttribute_path[of l p' a "map (repath f) cs" _ p cs] ..

lemma walkName_path:
  "walkName (Element l p' a (map (repath f) cs)) w = walkName (Element l p a cs) w"
  unfolding walkName_def nodeText_children[of l p' a f cs p]
    mustGetAttribute_path[of l p' a "map (repath f) cs" _ p cs] ..

lemma walkChildren_repath:
  "\<forall>c\<in>set xs. \<forall>w. walk C this (repath f c) w = walk C this c w \<Longrightarrow>
   walkChildren C this (map (repath f) xs) w = walkChildren C this xs w"
  by (induction xs arbitrary: w) (simp_all cong: andThen_cong)

lemma first_repath:
  assumes "\<forall>c\<in>set cs. \<forall>w. walk C this (repath f c) w = walk C this c w"
  shows "(case map (repath f) cs of [] \<Rightarrow> Inl TypeError | k # rest \<Rightarrow> walk C this k w) =
         (case cs of [] \<Rightarrow> Inl TypeError | k # rest \<Rightarrow> walk C this k w)"
  using assms by (cases cs) simp_all

lemma walkArgs_repath:
  assumes IH: "\<forall>c\<in>set cs. \<forall>w. walk C this (repath f c) w = walk C this c w"
  shows "walkArgs C this l p' a (map (repath f) cs) w = walkArgs C this l p a cs w"
proof -
  have ch: "walkChildren C this (map (repath f) xs) x = walkChildren C this xs x"
    if "set xs \<subseteq> set cs" for xs x
    using IH that by (intro walkChildren_repath) blast
  have ch0: "walkChildren C this (map (repath f) cs) x = walkChildren C this cs x" for x
    by (rule ch) simp
  have ch1: "walkChildren C this (map (repath f) (drop 1 cs)) x = walkChildren C this (drop 1 cs) x"
    for x
    by (rule ch) (rule set_drop_subset)
  have ch2: "walkChildren C this (map (repath f) (take n cs)) x = walkChildren C this (take n cs) x"
    for x n
    by (rule ch) (rule set_take_subset)
  have hp: "(map (repath f) cs \<noteq> [] \<and> localOf (hd (map (repath f) cs)) = Some ''param'') =
            (cs \<noteq> [] \<and> localOf (hd cs) = Some ''param'')"
    by (cases cs) simp_all
  have he: "(map (repath f) cs \<noteq> [] \<and> localOf (last (map (repath f) cs)) = Some ''except'') =
            (cs \<noteq> [] \<and> localOf (last cs) = Some ''except'')"
    by (cases "cs = []") (simp_all add: last_map)
  have lst: "walk C this (last (map (repath f) cs)) x = walk C this (last cs) x"
    if "cs \<noteq> []" for x
    using IH that by (simp add: last_map)
  have lst': "(if cs \<noteq> [] \<and> localOf (last cs) = Some ''except''
               then walk C this (last (map (repath f) cs)) x else Inr x) =
              (if cs \<noteq> [] \<and> localOf (last cs) = Some ''except''
               then walk C this (last cs) x else Inr x)" for x
    using lst by simp
  have ch3: "walkChildren C this (if c then map (repath f) (take n cs) else map (repath f) cs) x =
             walkChildren C this (if c then take n cs else cs) x" for x n c
    by (simp add: ch0 ch2)
  note el = walkRef_path[of C l p' a "map (repath f) cs" _ p cs]
    walkValue_path[of l p' a f cs _ p] walkName_path[of l p' a f cs _ p]
    mustGetAttribute_path[of l p' a "map (repath f) cs" _ p cs]
  show ?thesis
    unfolding walkArgs.simps[of C this l p' a "map (repath f) cs" w]
      walkArgs.simps[of C this l p a cs w] Let_def el hp he
      first_repath[OF IH] ch0 drop_map take_map length_map ch1 ch3 lst' ..
qed

lemma param_repath:
  "(case map (repath f) cs of [] \<Rightarrow> Inl TypeError | k # rest \<Rightarrow> outputAsString (nodeText k) w) =
   (case cs of [] \<Rightarrow> Inl TypeError | k # rest \<Rightarrow> outputAsString (nodeText k) w)"
  by (cases cs) simp_all

lemma outputPath_off: "\<not> includePaths this \<Longrightarrow> outputPath this el w = Inr w"
  by (simp add: outputPath_def)

lemma walk_repath:
  "\<not> includePaths this \<Longrightarrow> walk C this (repath f n) w = walk C this n w"
proof (induction n arbitrary: w)
  case (Text t)
  show ?case by simp
next
  case (Element l p a cs)
  have IH: "\<forall>c\<in>set cs. \<forall>w. walk C this (repath f c) w = walk C this c w"
    using Element by blast
  have ch: "walkChildren C this (map (repath f) xs) x = walkChildren C this xs x"
    if "set xs \<subseteq> set cs" for xs x
    using IH that by (intro walkChildren_repath) blast
  have ch0: "walkChildren C this (map (repath f) cs) x = walkChildren C this cs x" for x
    by (rule ch) simp
  have ch1: "walkChildren C this (map (repath f) (drop 1 cs)) x = walkChildren C this (drop 1 cs) x"
    for x
    by (rule ch) (rule set_drop_subset)
  note off = outputPath_off[OF Element.prems]
  show ?case
    unfolding repath.simps walk.simps Let_def off
      mustGetAttribute_path[of l "f p" a "map (repath f) cs" _ p cs]
      param_repath first_repath[OF IH] ch0 drop_map ch1
      walkArgs_repath[OF IH, of l "f p" a _ p] ..
qed

lemma js_strict_equal_3: "js_strict_equal N (Finite 3) = (N = Finite 3)"
  by (cases N) simp_all

section \<open>Facts about the regexp translator\<close>

lemma showRegExp_anchorStart: "showRegExp (anchorStart r) = ''^'' @ showRegExp r"
  by (induction r rule: anchorStart.induct) simp_all

lemma showRegExp_anchorEnd: "showRegExp (anchorEnd r) = showRegExp r @ ''$''"
  by (induction r rule: anchorEnd.induct) simp_all

section \<open>The claims\<close>

text \<open>
  C1, as amended. \<open>fireEvent\<close> keeps no count of tags. In every state, so whatever
  the tags that the branches have consumed, a call that passes the two early returns
  calls \<open>walkerA\<close> first; when \<open>walkerA\<close> matches, its result is returned and
  \<open>walkerB\<close> is not called; when it does not, \<open>walkerB\<close> is called, and its result
  is returned when it matches.
\<close>

theorem fireEvent_tries_walkerA_first:
  assumes "\<not> ended w"
    and "\<not> (isAttributeEvent name \<and> \<not> hasAttrs w)"
  shows "walkerA (fst (fireEvent B w name params)) = fst (sub_fireEvent B (walkerA w) name params) \<and>
         (matched (snd (sub_fireEvent B (walkerA w) name params)) \<longrightarrow>
            fedTo B w name params = [BranchA] \<and>
            consumedBy B w name params = Some BranchA \<and>
            snd (fireEvent B w name params) = snd (sub_fireEvent B (walkerA w) name params) \<and>
            walkerB (fst (fireEvent B w name params)) = walkerB w) \<and>
         (\<not> matched (snd (sub_fireEvent B (walkerA w) name params)) \<longrightarrow>
            fedTo B w name params = [BranchA, BranchB] \<and>
            walkerB (fst (fireEvent B w name params)) =
              fst (sub_fireEvent B (walkerB w) name params) \<and>
            snd (fireEvent B w name params) =
              (if matched (snd (sub_fireEvent B (walkerB w) name params))
               then snd (sub_fireEvent B (walkerB w) name params) else unmatched))"
  using assms
  by (auto simp: fedTo_def consumedBy_def fireEvent_def Let_def split: prod.splits)

theorem fireEvent_tries_walkerA_first_witness:
  "\<not> ended (fst (fireEvents seqBase
        (newWalker seqBase \<lparr> patA = elementPattern ''a'', patB = elementPattern ''b'' \<rparr> ())
        [(''enterStartTag'', ['''', ''b''])])) \<and>
   walkerA (fst (fireEvent seqBase
      (fst (fireEvents seqBase
        (newWalker seqBase \<lparr> patA = elementPattern ''a'', patB = elementPattern ''b'' \<rparr> ())
        [(''enterStartTag'', ['''', ''b''])]))
      ''enterStartTag'' ['''', ''a''])) = [] \<and>
   snd (fireEvent seqBase
      (fst (fireEvents seqBase
        (newWalker seqBase \<lparr> patA = elementPattern ''a'', patB = elementPattern ''b'' \<rparr> ())
        [(''enterStartTag'', ['''', ''b''])]))
      ''enterStartTag'' ['''', ''a'']) = \<lparr> matched = True, errors = None \<rparr> \<and>
   walkerB (fst (fireEvent seqBase
      (fst (fireEvents seqBase
        (newWalker seqBase \<lparr> patA = elementPattern ''a'', patB = elementPattern ''b'' \<rparr> ())
        [(''enterStartTag'', ['''', ''b''])]))
      ''enterStartTag'' ['''', ''a''])) = []"
proof -
  have e: "\<not> ended (fst (fireEvents seqBase (newWalker seqBase \<lparr> patA = elementPattern ''a'', patB = elementPattern ''b'' \<rparr> ()) [(''enterStartTag'', ['''', ''b''])]))"
    by (simp add: seq_simps)
  have h: "\<not> (isAttributeEvent ''enterStartTag'' \<and> \<not> hasAttrs (fst (fireEvents seqBase (newWalker seqBase \<lparr> patA = elementPattern ''a'', patB = elementPattern ''b'' \<rparr> ()) [(''enterStartTag'', ['''', ''b''])])))"
    by (simp add: isAttributeEvent_def)
  have a: "sub_fireEvent seqBase (walkerA (fst (fireEvents seqBase (newWalker seqBase \<lparr> patA = elementPattern ''a'', patB = elementPattern ''b'' \<rparr> ()) [(''enterStartTag'', ['''', ''b''])]))) ''enterStartTag'' ['''', ''a''] = ([], \<lparr> matched = True, errors = None \<rparr>)"
    by (simp add: seq_simps)
  have b: "walkerB (fst (fireEvents seqBase (newWalker seqBase \<lparr> patA = elementPattern ''a'', patB = elementPattern ''b'' \<rparr> ()) [(''enterStartTag'', ['''', ''b''])])) = []"
    by (simp add: seq_simps)
  from fireEvent_tries_walkerA_first[OF e h, of seqBase "['''', ''a'']"] e
  show ?thesis
    unfolding a b by simp
qed

text \<open>
  C1 as stated fails on a valid document. For the interleave of the elements \<open>a\<close> and
  \<open>b\<close> in the content of \<open>foo\<close>, the document \<open>foo\<close> with the children \<open>b\<close> then \<open>a\<close>
  (which the spec's third scenario accepts) gives the walker the start tag of \<open>b\<close> and
  then the start tag of \<open>a\<close>. After the first, branch B has consumed one start tag
  and no end tag (no end tag ever reaches the walker); the second is fed to \<open>walkerA\<close>,
  not to branch B alone, and branch A consumes it. The walker accepts the sequence.
\<close>

theorem fireEvent_in_flight_counterexample:
  "inFlight seqBase (newWalker seqBase \<lparr> patA = elementPattern ''a'', patB = elementPattern ''b'' \<rparr> ())
      [(''enterStartTag'', ['''', ''b''])] BranchB \<and>
   fedTo seqBase
      (fst (fireEvents seqBase
              (newWalker seqBase \<lparr> patA = elementPattern ''a'', patB = elementPattern ''b'' \<rparr> ())
              [(''enterStartTag'', ['''', ''b''])]))
      ''enterStartTag'' ['''', ''a''] = [BranchA] \<and>
   consumedBy seqBase
      (fst (fireEvents seqBase
              (newWalker seqBase \<lparr> patA = elementPattern ''a'', patB = elementPattern ''b'' \<rparr> ())
              [(''enterStartTag'', ['''', ''b''])]))
      ''enterStartTag'' ['''', ''a''] = Some BranchA \<and>
   accepts seqBase \<lparr> patA = elementPattern ''a'', patB = elementPattern ''b'' \<rparr> ()
      [(''enterStartTag'', ['''', ''b'']), (''enterStartTag'', ['''', ''a''])]"
  by (simp add: seq_simps inFlight_def consumedBy_def fedTo_def accepts_def no_errors_def)

text \<open>
  C2, as amended. For patterns \<open>a\<close> and \<open>b\<close> whose walkers never both match one event
  and that reject quietly, the walkers of \<open>Interleave(a,b)\<close> and \<open>Interleave(b,a)\<close>
  accept the same sequences of events.
\<close>

theorem interleave_commutes_without_overlap:
  assumes "rejects_quietly B"
    and "never_both_match B (newWalker B \<lparr> patA = a, patB = b \<rparr> resolver)"
  shows "accepts B \<lparr> patA = a, patB = b \<rparr> resolver evs \<longleftrightarrow>
         accepts B \<lparr> patA = b, patB = a \<rparr> resolver evs"
proof -
  let ?w = "newWalker B \<lparr> patA = a, patB = b \<rparr> resolver"
  have s: "newWalker B \<lparr> patA = b, patB = a \<rparr> resolver = swap ?w"
    using newWalker_swap[of B "\<lparr> patA = a, patB = b \<rparr>" resolver] by simp
  show ?thesis
    using fireEvents_swap[OF assms, of evs] endWalker_swap[of B "fst (fireEvents B ?w evs)"]
    by (simp add: accepts_def s case_prod_beta)
qed

theorem interleave_commutes_witness:
  "accepts seqBase \<lparr> patA = attributePattern ''id'' ''1'', patB = elementPattern ''x'' \<rparr> ()
      [(''attributeName'', ['''', ''id'']), (''attributeValue'', [''1'']),
       (''enterStartTag'', ['''', ''x''])] \<and>
   accepts seqBase \<lparr> patA = elementPattern ''x'', patB = attributePattern ''id'' ''1'' \<rparr> ()
      [(''attributeName'', ['''', ''id'']), (''attributeValue'', [''1'']),
       (''enterStartTag'', ['''', ''x''])]"
proof -
  have n: "never_both_match seqBase
             (newWalker seqBase \<lparr> patA = attributePattern ''id'' ''1'', patB = elementPattern ''x'' \<rparr> ())"
    by (rule seq_never_both_match)
       (simp add: newWalker_def seqBase_def elementPattern_def attributePattern_def Let_def)
  have 1: "accepts seqBase \<lparr> patA = attributePattern ''id'' ''1'', patB = elementPattern ''x'' \<rparr> ()
      [(''attributeName'', ['''', ''id'']), (''attributeValue'', [''1'']),
       (''enterStartTag'', ['''', ''x''])]"
    by (simp add: accepts_def no_errors_def seq_simps)
  from interleave_commutes_without_overlap[OF seq_rejects_quietly n] 1
  show ?thesis by blast
qed

text \<open>
  C2 as stated fails where both operands can match one event: \<open>walkerA\<close> is tried
  first, so the order of the operands decides which branch takes the event. The group
  of the elements \<open>x\<close> and \<open>y\<close> interleaved with the element \<open>x\<close> accepts
  \<open>x y x\<close>; with the operands exchanged it does not.
\<close>

theorem interleave_commutes_counterexample:
  "accepts seqBase \<lparr> patA = elementPattern ''x'' @ elementPattern ''y'', patB = elementPattern ''x'' \<rparr> ()
      (elementPattern ''x'' @ elementPattern ''y'' @ elementPattern ''x'') \<and>
   \<not> accepts seqBase \<lparr> patA = elementPattern ''x'', patB = elementPattern ''x'' @ elementPattern ''y'' \<rparr> ()
      (elementPattern ''x'' @ elementPattern ''y'' @ elementPattern ''x'')"
  by (simp add: accepts_def no_errors_def seq_simps)

text \<open>
  C3. For every walker reached from a fresh one by a sequence of events: \<open>canEnd\<close>
  holds if and only if \<open>end()\<close> returns \<open>false\<close>, the sub-walkers reached from
  fresh ones satisfying the same equivalence and keeping to the walker contract (an
  event that a sub-walker does not match leaves it unchanged).
\<close>

theorem canEnd_iff_end_after_fireEvents:
  assumes "rejects_quietly B"
    and "sub_canEnd_iff_end B (patA el) resolver"
    and "sub_canEnd_iff_end B (patB el) resolver"
    and "w = fst (fireEvents B (newWalker B el resolver) evs)"
  shows "canEnd w \<longleftrightarrow> snd (endWalker B w) = None"
proof -
  have s: "canEnd_in_sync B w"
    using fireEvents_canEnd_in_sync[OF assms(1) newWalker_in_sync(1), of el resolver evs] assms(4)
    by simp
  have e: "\<not> ended w"
    using assms(4) by (simp add: fireEvents_keeps_ended newWalker_def Let_def)
  from sub_walkers_reached[of B "newWalker B el resolver" evs] obtain ea eb where
    r: "walkerA w = sub_fireEvents B (sub_newWalker B (patA el) resolver) ea"
       "walkerB w = sub_fireEvents B (sub_newWalker B (patB el) resolver) eb"
    unfolding newWalker_sub_walkers assms(4) by blast
  have qa: "sub_canEnd B (walkerA w) \<longleftrightarrow> snd (sub_end B (walkerA w)) = None"
    using assms(2) unfolding sub_canEnd_iff_end_def r(1) by blast
  have qb: "sub_canEnd B (walkerB w) \<longleftrightarrow> snd (sub_end B (walkerB w)) = None"
    using assms(3) unfolding sub_canEnd_iff_end_def r(2) by blast
  show ?thesis
    using s e qa qb
    by (auto simp: endWalker_def canEnd_in_sync_def Let_def split: prod.splits option.splits)
qed

theorem canEnd_iff_end_witness:
  "canEnd (fst (fireEvents seqBase
       (newWalker seqBase \<lparr> patA = elementPattern ''a'', patB = elementPattern ''b'' \<rparr> ())
       [(''enterStartTag'', ['''', ''b'']), (''enterStartTag'', ['''', ''a''])])) \<and>
   snd (endWalker seqBase (fst (fireEvents seqBase
       (newWalker seqBase \<lparr> patA = elementPattern ''a'', patB = elementPattern ''b'' \<rparr> ())
       [(''enterStartTag'', ['''', ''b'']), (''enterStartTag'', ['''', ''a''])]))) = None \<and>
   \<not> canEnd (fst (fireEvents seqBase
       (newWalker seqBase \<lparr> patA = elementPattern ''a'', patB = elementPattern ''b'' \<rparr> ())
       [(''enterStartTag'', ['''', ''a''])])) \<and>
   snd (endWalker seqBase (fst (fireEvents seqBase
       (newWalker seqBase \<lparr> patA = elementPattern ''a'', patB = elementPattern ''b'' \<rparr> ())
       [(''enterStartTag'', ['''', ''a''])]))) \<noteq> None"
proof -
  have 1: "canEnd (fst (fireEvents seqBase
       (newWalker seqBase \<lparr> patA = elementPattern ''a'', patB = elementPattern ''b'' \<rparr> ())
       [(''enterStartTag'', ['''', ''b'']), (''enterStartTag'', ['''', ''a''])]))"
    by (simp add: seq_simps)
  have 2: "\<not> canEnd (fst (fireEvents seqBase
       (newWalker seqBase \<lparr> patA = elementPattern ''a'', patB = elementPattern ''b'' \<rparr> ())
       [(''enterStartTag'', ['''', ''a''])]))"
    by (simp add: seq_simps)
  from canEnd_iff_end_after_fireEvents[OF seq_rejects_quietly seq_canEnd_iff_end seq_canEnd_iff_end refl,
      of "\<lparr> patA = elementPattern ''a'', patB = elementPattern ''b'' \<rparr>" "()"
         "[(''enterStartTag'', ['''', ''b'']), (''enterStartTag'', ['''', ''a''])]"]
    canEnd_iff_end_after_fireEvents[OF seq_rejects_quietly seq_canEnd_iff_end seq_canEnd_iff_end refl,
      of "\<lparr> patA = elementPattern ''a'', patB = elementPattern ''b'' \<rparr>" "()"
         "[(''enterStartTag'', ['''', ''a''])]"] 1 2
  show ?thesis by simp
qed

text \<open>
  C4. Feeding a sequence of events to a walker and to its clone gives the same results
  event by event, and the same \<open>end()\<close> and \<open>endAttributes()\<close> results afterwards, the
  sub-walkers' clones behaving like their originals; for every memo, the empty one
  included.
\<close>

theorem clone_preserves_behaviour:
  assumes "clones_behave_alike B R"
    and "w' = fst (clone B w memo)"
  shows "snd (fireEvents B w' evs) = snd (fireEvents B w evs) \<and>
         snd (endWalker B (fst (fireEvents B w' evs))) = snd (endWalker B (fst (fireEvents B w evs))) \<and>
         snd (endAttributes B (fst (fireEvents B w' evs))) =
           snd (endAttributes B (fst (fireEvents B w evs)))"
proof -
  have h: "behaves_alike B R" and c: "\<forall>s memo. R (fst (sub_clone B s memo)) s"
    using assms(1) by (simp_all add: clones_behave_alike_def)
  have "alike R w' w"
    using clone_alike[OF c, of w memo] assms(2) by simp
  from fireEvents_alike[OF h this, of evs] end_alike[OF h, of "fst (fireEvents B w' evs)" "fst (fireEvents B w evs)"]
  show ?thesis by simp
qed

theorem clone_preserves_behaviour_witness:
  "snd (fireEvents seqBase
         (fst (clone seqBase (newWalker seqBase \<lparr> patA = elementPattern ''a'', patB = elementPattern ''b'' \<rparr> ()) ()))
         [(''enterStartTag'', ['''', ''b'']), (''enterStartTag'', ['''', ''a''])]) =
   snd (fireEvents seqBase
         (newWalker seqBase \<lparr> patA = elementPattern ''a'', patB = elementPattern ''b'' \<rparr> ())
         [(''enterStartTag'', ['''', ''b'']), (''enterStartTag'', ['''', ''a''])]) \<and>
   map matched (snd (fireEvents seqBase
         (fst (clone seqBase (newWalker seqBase \<lparr> patA = elementPattern ''a'', patB = elementPattern ''b'' \<rparr> ()) ()))
         [(''enterStartTag'', ['''', ''b'']), (''enterStartTag'', ['''', ''a''])])) = [True, True]"
proof -
  have 1: "map matched (snd (fireEvents seqBase
         (newWalker seqBase \<lparr> patA = elementPattern ''a'', patB = elementPattern ''b'' \<rparr> ())
         [(''enterStartTag'', ['''', ''b'']), (''enterStartTag'', ['''', ''a''])])) = [True, True]"
    by (simp add: seq_simps)
  from clone_preserves_behaviour[OF seq_clones_behave_alike refl,
      of "newWalker seqBase \<lparr> patA = elementPattern ''a'', patB = elementPattern ''b'' \<rparr> ()" "()"
         "[(''enterStartTag'', ['''', ''b'']), (''enterStartTag'', ['''', ''a''])]"] 1
  show ?thesis by simp
qed




text \<open>
  C6. \<open>hasEmptyPattern(Interleave(a,b))\<close> is \<open>hasEmptyPattern(a) && hasEmptyPattern(b)\<close>,
  and this is the nullability of the interleave: where \<open>hasEmptyPattern\<close> of each
  operand says whether its language holds the empty sequence, \<open>hasEmptyPattern\<close> of the
  interleave says whether the language of the interleave does.
\<close>

theorem hasEmptyPattern_is_nullability:
  assumes "sub_hasEmptyPattern B (patA el) = nullable La"
    and "sub_hasEmptyPattern B (patB el) = nullable Lb"
  shows "hasEmptyPattern B el = (sub_hasEmptyPattern B (patA el) \<and> sub_hasEmptyPattern B (patB el)) \<and>
         hasEmptyPattern B el = nullable (interleave_language La Lb)"
  using assms
  by (simp add: hasEmptyPattern_def computeHasEmptyPattern_def nullable_interleave_language)

theorem hasEmptyPattern_is_nullability_witness:
  "hasEmptyPattern seqBase \<lparr> patA = [], patB = elementPattern ''x'' \<rparr> =
     nullable (interleave_language {[]} {elementPattern ''x''}) \<and>
   \<not> hasEmptyPattern seqBase \<lparr> patA = [], patB = elementPattern ''x'' \<rparr>"
proof -
  let ?el = "\<lparr> patA = [], patB = elementPattern ''x'' \<rparr> :: Event list Interleave"
  have 1: "sub_hasEmptyPattern seqBase (patA ?el) = nullable {[]}"
    by (simp add: seqBase_def nullable_def)
  have 2: "sub_hasEmptyPattern seqBase (patB ?el) = nullable {elementPattern ''x''}"
    by (simp add: seqBase_def nullable_def elementPattern_def)
  have 3: "\<not> sub_hasEmptyPattern seqBase (patB ?el)"
    by (simp add: seqBase_def elementPattern_def)
  note t = hasEmptyPattern_is_nullability[OF 1 2]
  from t have "\<not> hasEmptyPattern seqBase ?el"
    using 3 by blast
  with t show ?thesis by blast
qed

text \<open>
  C7. The translator maps the XSD expression \<open>ab[abcd-[bc]]cd\<close> to the anchored string
  \<open>^ab(?:(?![bc])[abcd])cd$\<close>, the subtraction as a negative lookahead followed by the
  positive class, and the matcher of the result matches \<open>abdcd\<close> and matches neither
  \<open>abbcd\<close> nor \<open>ab1cd\<close>.
\<close>

theorem parse_class_subtraction:
  "parse ''ab[abcd-[bc]]cd'' = Some ''^ab(?:(?![bc])[abcd])cd$'' \<and>
   parseAndTest ''ab[abcd-[bc]]cd'' ''abdcd'' = Some True \<and>
   parseAndTest ''ab[abcd-[bc]]cd'' ''abbcd'' = Some False \<and>
   parseAndTest ''ab[abcd-[bc]]cd'' ''ab1cd'' = Some False"
  by code_simp

text \<open>
  C8. For every tree that \<open>writeTreeToJSON\<close> serialises with a walker for version 3:
  the top-level object, which the \<open>grammar\<close> element emits, is \<open>{"v":3,"o":o,"d":...}\<close>
  where the \<open>OPTION_NO_PATHS\<close> bit of \<open>o\<close> is set exactly when \<open>includePaths\<close> is
  false, and \<open>d\<close> is the node array of the grammar; and every node array, which is what
  \<open>walk\<close> emits for an element other than \<open>start\<close>, \<open>param\<close>, \<open>grammar\<close> and
  \<open>except\<close>, is the bracket, the constructor (its name in verbose mode, its code
  otherwise), then the path string exactly when \<open>includePaths\<close> is true, then the
  arguments that \<open>walkArgs\<close> writes, and the closing bracket. When \<open>includePaths\<close> is
  false no path is written at all: the output is the same whatever the paths in the
  tree are.
\<close>

theorem writeTreeToJSON_emits_paths_iff_includePaths:
  assumes new: "new_DefaultConversionWalker version includePaths' verbose' = Inr this"
  shows \<open>(\<forall>C pth attrs cs out.
            writeTreeToJSON C (Element ''grammar'' pth attrs cs) version includePaths' verbose' = Inr out \<longrightarrow>
            (\<exists>opts ctor rest.
               nameToCode C ''Grammar'' = Some ctor \<and>
               out = ''{"v":3,"o":'' @ showNat opts @ '',"d":['' @
                     (if verbose' then ''"Grammar"'' else showNat ctor) @
                     (if includePaths' then '',"'' @ escape pth @ ''"'' else []) @
                     rest @ '']}'' \<and>
               opts = (if includePaths' then 0 else OPTION_NO_PATHS) \<and>
               ((opts AND OPTION_NO_PATHS = OPTION_NO_PATHS) = (\<not> includePaths')))) \<and>
         (\<forall>C elName pth attrs cs w w'.
            elName \<noteq> ''start'' \<and> elName \<noteq> ''param'' \<and> elName \<noteq> ''grammar'' \<and>
            capitalize elName \<noteq> ''Except'' \<and>
            walk C this (Element elName pth attrs cs) w = Inr w' \<longrightarrow>
            (\<exists>ctorName ctor x x' args.
               ctorName = (if inNameClass w \<and> capitalize elName = ''Choice'' then ''NameChoice''
                           else capitalize elName) \<and>
               nameToCode C ctorName = Some ctor \<and>
               walkArgs C this elName pth attrs cs x = Inr x' \<and>
               outputStr x' = outputStr x @ args \<and>
               outputStr w' =
                 outputStr w @ (if first (hd (constructState w)) then [] else '','') @ ''['' @
                 (if verbose' then ''"'' @ escape ctorName @ ''"'' else showNat ctor) @
                 (if includePaths' then '',"'' @ escape pth @ ''"'' else []) @
                 args @ '']'')) \<and>
         (\<not> includePaths' \<longrightarrow>
            (\<forall>C f tree.
               writeTreeToJSON C (repath f tree) version includePaths' verbose' =
               writeTreeToJSON C tree version includePaths' verbose'))\<close>
proof -
  from new have flds: "includePaths this = includePaths'" "verbose this = verbose'"
    by (auto simp: new_DefaultConversionWalker_def split: if_splits)
  have opts: "((if includePaths' then 0 else OPTION_NO_PATHS) AND OPTION_NO_PATHS = OPTION_NO_PATHS)
                = (\<not> includePaths')"
    by (simp add: OPTION_NO_PATHS_def)
  have g: \<open>\<exists>opts ctor rest.
               nameToCode C ''Grammar'' = Some ctor \<and>
               out = ''{"v":3,"o":'' @ showNat opts @ '',"d":['' @
                     (if verbose' then ''"Grammar"'' else showNat ctor) @
                     (if includePaths' then '',"'' @ escape pth @ ''"'' else []) @
                     rest @ '']}'' \<and>
               opts = (if includePaths' then 0 else OPTION_NO_PATHS) \<and>
               ((opts AND OPTION_NO_PATHS = OPTION_NO_PATHS) = (\<not> includePaths'))\<close>
    if "writeTreeToJSON C (Element ''grammar'' pth attrs cs) version includePaths' verbose' = Inr out"
    for C pth attrs cs out
  proof -
    from that have "andThen (new_DefaultConversionWalker version includePaths' verbose') (\<lambda>walker.
        andThen (walk C walker (Element ''grammar'' pth attrs cs) initialState)
          (\<lambda>w. Inr (outputStr w))) = Inr out"
      by (simp only: writeTreeToJSON_def)
    then have "andThen (walk C this (Element ''grammar'' pth attrs cs) initialState)
          (\<lambda>w. Inr (outputStr w)) = Inr out"
      by (simp only: new andThen_simps)
    then obtain w' where
      w': "walk C this (Element ''grammar'' pth attrs cs) initialState = Inr w'"
          "Inr (outputStr w') = (Inr out :: exn + string)"
      by (rule andThen_InrE)
    have i: "outputStr initialState = []" by (simp add: initialState_def)
    have o: "out = outputStr w'" using w'(2) by simp
    from walk_grammar_shape[OF w'(1)] obtain ctor rest where
      "nameToCode C ''Grammar'' = Some ctor"
      \<open>out = ''{"v":3,"o":'' @ showNat (if includePaths' then 0 else OPTION_NO_PATHS) @ '',"d":['' @
                     (if verbose' then ''"Grammar"'' else showNat ctor) @
                     (if includePaths' then '',"'' @ escape pth @ ''"'' else []) @
                     rest @ '']}''\<close>
      unfolding o flds i by auto
    with opts show ?thesis by (intro exI conjI) (assumption | rule refl)+
  qed
  have n: \<open>\<exists>ctorName ctor x x' args.
               ctorName = (if inNameClass w \<and> capitalize elName = ''Choice'' then ''NameChoice''
                           else capitalize elName) \<and>
               nameToCode C ctorName = Some ctor \<and>
               walkArgs C this elName pth attrs cs x = Inr x' \<and>
               outputStr x' = outputStr x @ args \<and>
               outputStr w' =
                 outputStr w @ (if first (hd (constructState w)) then [] else '','') @ ''['' @
                 (if verbose' then ''"'' @ escape ctorName @ ''"'' else showNat ctor) @
                 (if includePaths' then '',"'' @ escape pth @ ''"'' else []) @
                 args @ '']''\<close>
    if "elName \<noteq> ''start''" "elName \<noteq> ''param''" "elName \<noteq> ''grammar''"
      "capitalize elName \<noteq> ''Except''" "walk C this (Element elName pth attrs cs) w = Inr w'"
    for C elName pth attrs cs w w'
    using walk_default_shape[OF that] unfolding flds by (elim exE conjE) (simp, blast)
  have p: "writeTreeToJSON C (repath f tree) version includePaths' verbose' =
           writeTreeToJSON C tree version includePaths' verbose'"
    if "\<not> includePaths'" for C f tree
  proof -
    from that have "\<not> includePaths this" by (simp add: flds)
    then have "walk C this (repath f tree) initialState = walk C this tree initialState"
      by (rule walk_repath)
    then show ?thesis
      by (simp only: writeTreeToJSON_def new andThen_simps)
  qed
  show ?thesis
    by (intro conjI allI impI; (elim conjE)?; (erule g | (rule n; assumption) | (erule p)))
qed

theorem writeTreeToJSON_emits_paths_iff_includePaths_witness:
  \<open>writeTreeToJSON exampleCommon exampleTree (Finite 3) False False =
       Inr ''{"v":3,"o":1,"d":[20,[7,[12,"","foo"],[0,[1]]],[0]]}'' \<and>
     (\<exists>opts rest.
        ''{"v":3,"o":1,"d":[20,[7,[12,"","foo"],[0,[1]]],[0]]}'' =
          ''{"v":3,"o":'' @ showNat opts @ '',"d":[20'' @ rest @ '']}'' \<and>
        opts AND OPTION_NO_PATHS = OPTION_NO_PATHS) \<and>
     (\<exists>w' args.
        walk exampleCommon \<lparr> includePaths = False, verbose = False, arrayStart = Number 0 \<rparr>
          (Element ''name'' ''/grammar/start/element/name'' [(''ns'', [])] [Text ''foo''])
          initialState = Inr w' \<and>
        outputStr w' = ''[12'' @ args @ '']'') \<and>
     writeTreeToJSON exampleCommon (repath (\<lambda>p. []) exampleTree) (Finite 3) False False =
       Inr ''{"v":3,"o":1,"d":[20,[7,[12,"","foo"],[0,[1]]],[0]]}''\<close>
proof -
  let ?walker = "\<lparr> includePaths = False, verbose = False, arrayStart = Number 0 \<rparr>"
  have new: "new_DefaultConversionWalker (Finite 3) False False = Inr ?walker"
    by (simp add: new_DefaultConversionWalker_def)
  have w: \<open>walk exampleCommon ?walker
             (Element ''grammar'' ''/grammar'' []
               [Element ''start'' ''/grammar/start'' []
                  [Element ''element'' ''/grammar/start/element'' []
                     [Element ''name'' ''/grammar/start/element/name'' [(''ns'', [])] [Text ''foo''],
                      Element ''empty'' ''/grammar/start/element/empty'' [] []]]])
             initialState =
           Inr \<lparr> inNameClass = False,
                  outputStr = ''{"v":3,"o":1,"d":[20,[7,[12,"","foo"],[0,[1]]],[0]]}'',
                  constructState = [\<lparr> openStr = [], closeStr = [], first = True \<rparr>] \<rparr>\<close>
    by code_simp
  have run: \<open>writeTreeToJSON exampleCommon
              (Element ''grammar'' ''/grammar'' []
               [Element ''start'' ''/grammar/start'' []
                  [Element ''element'' ''/grammar/start/element'' []
                     [Element ''name'' ''/grammar/start/element/name'' [(''ns'', [])] [Text ''foo''],
                      Element ''empty'' ''/grammar/start/element/empty'' [] []]]])
              (Finite 3) False False =
            Inr ''{"v":3,"o":1,"d":[20,[7,[12,"","foo"],[0,[1]]],[0]]}''\<close>
    by (simp only: writeTreeToJSON_def new w andThen_simps WalkerState.simps)
  have nm: \<open>walk exampleCommon ?walker
             (Element ''name'' ''/grammar/start/element/name'' [(''ns'', [])] [Text ''foo''])
             initialState =
           Inr \<lparr> inNameClass = False, outputStr = ''[12,"","foo"]'',
                  constructState = [\<lparr> openStr = [], closeStr = [], first = False \<rparr>] \<rparr>\<close>
    by code_simp
  have c20: "nameToCode exampleCommon ''Grammar'' = Some 20"
    by (simp add: exampleCommon_def)
  have s20: "showNat 20 = ''20''"
    by code_simp
  from writeTreeToJSON_emits_paths_iff_includePaths[OF new, THEN conjunct1, rule_format, OF run]
  obtain opts rest where
    a: \<open>''{"v":3,"o":1,"d":[20,[7,[12,"","foo"],[0,[1]]],[0]]}'' =
          ''{"v":3,"o":'' @ showNat opts @ '',"d":[20'' @ rest @ '']}''\<close>
       "opts AND OPTION_NO_PATHS = OPTION_NO_PATHS"
    by (auto simp: c20 s20)
  have cap: "capitalize ''name'' = ''Name''"
    by code_simp
  have c12: "nameToCode exampleCommon ''Name'' = Some 12"
    by (simp add: exampleCommon_def)
  have s12: "showNat 12 = ''12''"
    by code_simp
  have ini: "outputStr initialState = []" "first (hd (constructState initialState))"
    "\<not> inNameClass initialState"
    by (simp_all add: initialState_def)
  have pre: \<open>''name'' \<noteq> ''start'' \<and> ''name'' \<noteq> ''param'' \<and> ''name'' \<noteq> ''grammar'' \<and>
      capitalize ''name'' \<noteq> ''Except'' \<and>
      walk exampleCommon ?walker
        (Element ''name'' ''/grammar/start/element/name'' [(''ns'', [])] [Text ''foo''])
        initialState =
      Inr \<lparr> inNameClass = False, outputStr = ''[12,"","foo"]'',
             constructState = [\<lparr> openStr = [], closeStr = [], first = False \<rparr>] \<rparr>\<close>
    using nm by (simp add: cap)
  from writeTreeToJSON_emits_paths_iff_includePaths[OF new, THEN conjunct2, THEN conjunct1,
      rule_format, OF pre]
  obtain args where
    args: \<open>outputStr \<lparr> inNameClass = False, outputStr = ''[12,"","foo"]'',
             constructState = [\<lparr> openStr = [], closeStr = [], first = False \<rparr>] \<rparr> =
           ''[12'' @ args @ '']''\<close>
    by (auto simp: cap c12 s12 ini)
  have b: \<open>\<exists>w' args.
        walk exampleCommon ?walker
          (Element ''name'' ''/grammar/start/element/name'' [(''ns'', [])] [Text ''foo''])
          initialState = Inr w' \<and>
        outputStr w' = ''[12'' @ args @ '']''\<close>
    by (intro exI conjI) (rule nm, rule args)
  have c: \<open>writeTreeToJSON exampleCommon (repath (\<lambda>p. []) exampleTree) (Finite 3) False False =
       Inr ''{"v":3,"o":1,"d":[20,[7,[12,"","foo"],[0,[1]]],[0]]}''\<close>
    using writeTreeToJSON_emits_paths_iff_includePaths[OF new, THEN conjunct2, THEN conjunct2,
        rule_format, of exampleCommon "\<lambda>p. []" exampleTree]
      run
    by (simp add: exampleTree_def)
  show ?thesis
    unfolding exampleTree_def
    by (intro conjI run b exI[of _ opts] exI[of _ rest] a c[unfolded exampleTree_def])
qed

text \<open>
  C9. \<open>salve-convert\<close> accepts only format version 3: for every \<open>--format-version\<close>
  below 3 the script throws \<open>Fatal\<close>, the handler writes the message to the standard
  error and the process exits with code 1, whatever the rest of the script is; for
  every version other than 3 the constructor of \<open>DefaultConversionWalker\<close> throws, and
  so does the \<open>switch\<close> of \<open>convert\<close> that would call it.
\<close>

theorem salve_convert_accepts_only_format_version_3:
  "(js_less (format_version args) (Finite 3) \<longrightarrow>
      checkFormatVersion (impliedFlags args) =
        Inl (Fatal (CantProduceFormatVersion (format_version args))) \<and>
      salve_convert prog continue args =
        (None, startProcess\<lparr> terminating := True,
                 stderr := [(prog, CantProduceFormatVersion (format_version args))],
                 exitCode := Some 1 \<rparr>)) \<and>
   (N \<noteq> Finite 3 \<longrightarrow>
      new_DefaultConversionWalker N includePaths' verbose' =
        Inl (Error (Message ''DefaultConversionWalker only supports version 3''))) \<and>
   (format_version args \<noteq> Finite 3 \<longrightarrow>
      newWalkerFor args = Inl (Error (UnknownVersion (format_version args))))"
proof (intro conjI impI)
  have v: "format_version (impliedFlags args) = format_version args"
    by (simp add: impliedFlags_def Let_def)
  assume lt: "js_less (format_version args) (Finite 3)"
  then show c: "checkFormatVersion (impliedFlags args) =
        Inl (Fatal (CantProduceFormatVersion (format_version args)))"
    by (simp add: checkFormatVersion_def v)
  show "salve_convert prog continue args =
        (None, startProcess\<lparr> terminating := True,
                 stderr := [(prog, CantProduceFormatVersion (format_version args))],
                 exitCode := Some 1 \<rparr>)"
    by (simp add: salve_convert_def c uncaughtException_def startProcess_def)
next
  assume "N \<noteq> Finite 3"
  then show "new_DefaultConversionWalker N includePaths' verbose' =
        Inl (Error (Message ''DefaultConversionWalker only supports version 3''))"
    by (simp add: new_DefaultConversionWalker_def js_strict_equal_3)
next
  assume "format_version args \<noteq> Finite 3"
  then show "newWalkerFor args = Inl (Error (UnknownVersion (format_version args)))"
    by (simp add: newWalkerFor_def js_strict_equal_3)
qed

theorem salve_convert_accepts_only_format_version_3_witness:
  "js_less (format_version (exampleArgs (Finite 2))) (Finite 3) \<and>
   salve_convert ''salve-convert'' (\<lambda>args. (None, startProcess)) (exampleArgs (Finite 2)) =
     (None, \<lparr> terminating = True,
              stderr = [(''salve-convert'', CantProduceFormatVersion (Finite 2))],
              tempCleaned = False, exitCode = Some 1 \<rparr>) \<and>
   new_DefaultConversionWalker (Finite 4) False False =
     Inl (Error (Message ''DefaultConversionWalker only supports version 3'')) \<and>
   newWalkerFor (exampleArgs NaN) = Inl (Error (UnknownVersion NaN))"
proof -
  have lt: "js_less (format_version (exampleArgs (Finite 2))) (Finite 3)"
    by (simp add: exampleArgs_def)
  have ne: "Finite 4 \<noteq> Finite 3" "format_version (exampleArgs NaN) \<noteq> Finite 3"
    by (simp_all add: exampleArgs_def)
  have v: "format_version (exampleArgs N) = N" for N
    by (simp add: exampleArgs_def)
  from salve_convert_accepts_only_format_version_3
         [of "exampleArgs (Finite 2)" "''salve-convert''" "\<lambda>args. (None, startProcess)"
             "Finite 4" False False] lt ne(1)
  have a: "salve_convert ''salve-convert'' (\<lambda>args. (None, startProcess)) (exampleArgs (Finite 2)) =
     (None, \<lparr> terminating = True,
              stderr = [(''salve-convert'', CantProduceFormatVersion (Finite 2))],
              tempCleaned = False, exitCode = Some 1 \<rparr>)"
    and b: "new_DefaultConversionWalker (Finite 4) False False =
     Inl (Error (Message ''DefaultConversionWalker only supports version 3''))"
    by (simp_all add: v startProcess_def)
  from salve_convert_accepts_only_format_version_3
         [of "exampleArgs NaN" "''salve-convert''" "\<lambda>args. (None, startProcess)"
             "Finite 4" False False] ne(2)
  have c: "newWalkerFor (exampleArgs NaN) = Inl (Error (UnknownVersion NaN))"
    by (simp add: v)
  show ?thesis
    by (intro conjI lt a b c)
qed

text \<open>
  C10. Once \<open>end()\<close> has returned \<open>false\<close> with \<open>canEnd\<close> true, the walker is ended:
  every later \<open>fireEvent\<close> returns unmatched with no errors and leaves the walker, its
  sub-walkers included, as it is; \<open>possible()\<close> and \<open>possibleAttributes()\<close> are empty;
  \<open>end()\<close> and \<open>endAttributes()\<close> return \<open>false\<close>.
\<close>

theorem ended_walker_is_inert:
  assumes "canEnd w" and "endWalker B w = (w', r)"
  shows "r = None \<and> ended w' \<and>
         fireEvent B w' name params = (w', \<lparr> matched = False, errors = None \<rparr>) \<and>
         fireEvents B w' evs = (w', replicate (length evs) \<lparr> matched = False, errors = None \<rparr>) \<and>
         possible B w' = {} \<and> possibleAttributes B w' = {} \<and>
         endWalker B w' = (w', None) \<and> endAttributes B w' = (w', None)"
proof -
  from assms have r: "r = None" and e: "ended w'"
    by (auto simp: endWalker_def split: if_splits)
  from e show ?thesis
    using r fireEvent_ended[of w' B] fireEvents_ended[of w' B]
    by (simp add: possible_def possibleAttributes_def endWalker_def endAttributes_def unmatched_def)
qed

theorem ended_walker_is_inert_witness:
  "endWalker seqBase (newWalker seqBase \<lparr> patA = [], patB = [] \<rparr> ()) =
     ((newWalker seqBase \<lparr> patA = [], patB = [] \<rparr> ())\<lparr> ended := True \<rparr>, None) \<and>
   fireEvent seqBase ((newWalker seqBase \<lparr> patA = [], patB = [] \<rparr> ())\<lparr> ended := True \<rparr>) ''text'' [''x''] =
     ((newWalker seqBase \<lparr> patA = [], patB = [] \<rparr> ())\<lparr> ended := True \<rparr>, \<lparr> matched = False, errors = None \<rparr>)"
proof -
  let ?w = "newWalker seqBase \<lparr> patA = [], patB = [] \<rparr> ()"
  have c: "canEnd ?w"
    by (simp add: newWalker_def seqBase_def Interleave_hasAttrs_def)
  have e: "endWalker seqBase ?w = (?w\<lparr> ended := True \<rparr>, None)"
    using c by (simp add: endWalker_def newWalker_def Let_def)
  from ended_walker_is_inert[OF c e, of "''text''" "[''x'']"] e show ?thesis by simp
qed

end
